theory Spec2Isabelle
  imports Main "HOL-Library.Sublist" "HOL-Library.Word"
begin

section \<open>RateLimiter (searchbot.py, lines 18-38)\<close>

text \<open>
  A reading of \<^verbatim>\<open>datetime.now()\<close> is an integer number of microseconds (the resolution of
  a Python \<^verbatim>\<open>datetime\<close>); \<^verbatim>\<open>timedelta(minutes=1)\<close> and \<^verbatim>\<open>timedelta(days=1)\<close> are the
  two constants below. The two deques are lists: \<^verbatim>\<open>popleft\<close> removes the head,
  \<^verbatim>\<open>append\<close> adds at the end. The clock is an input: every operation takes the value
  that its call of \<^verbatim>\<open>datetime.now()\<close> returns.
\<close>

type_synonym time = int

definition one_minute :: int where
  "one_minute = 60000000"

definition one_day :: int where
  "one_day = 86400000000"

record RateLimiter =
  requests_per_minute :: int
  requests_per_day :: int
  minute_window :: "time list"
  day_window :: "time list"

definition RateLimiter_init :: "int \<Rightarrow> int \<Rightarrow> RateLimiter" where
  "RateLimiter_init rpm rpd =
     \<lparr>requests_per_minute = rpm, requests_per_day = rpd, minute_window = [], day_window = []\<rparr>"

text \<open>
  \<^verbatim>\<open>while window and window[0] < limit: window.popleft()\<close>
\<close>

fun popleft_while_older :: "time \<Rightarrow> time list \<Rightarrow> time list" where
  "popleft_while_older limit [] = []"
| "popleft_while_older limit (t # ts) =
     (if t < limit then popleft_while_older limit ts else t # ts)"

definition can_make_request :: "time \<Rightarrow> RateLimiter \<Rightarrow> RateLimiter \<times> bool" where
  "can_make_request now rl =
     (let mw = popleft_while_older (now - one_minute) (minute_window rl);
          dw = popleft_while_older (now - one_day) (day_window rl)
      in (rl\<lparr>minute_window := mw, day_window := dw\<rparr>,
          int (length mw) < requests_per_minute rl \<and> int (length dw) < requests_per_day rl))"

definition add_request :: "time \<Rightarrow> RateLimiter \<Rightarrow> RateLimiter" where
  "add_request now rl =
     rl\<lparr>minute_window := minute_window rl @ [now], day_window := day_window rl @ [now]\<rparr>"

text \<open>
  A sequence of calls on one limiter, each with the clock value it reads. \<open>run\<close> is the
  state after the calls; \<open>recorded\<close> is the list of the timestamps that \<open>add_request\<close>
  has recorded, in order (the calls made, whether or not the windows still hold them).
\<close>

datatype call = CanMakeRequest time | AddRequest time

fun call_time :: "call \<Rightarrow> time" where
  "call_time (CanMakeRequest now) = now"
| "call_time (AddRequest now) = now"

fun run_calls :: "RateLimiter \<Rightarrow> call list \<Rightarrow> RateLimiter" where
  "run_calls rl [] = rl"
| "run_calls rl (CanMakeRequest now # cs) = run_calls (fst (can_make_request now rl)) cs"
| "run_calls rl (AddRequest now # cs) = run_calls (add_request now rl) cs"

fun recorded :: "call list \<Rightarrow> time list" where
  "recorded [] = []"
| "recorded (CanMakeRequest now # cs) = recorded cs"
| "recorded (AddRequest now # cs) = now # recorded cs"

text \<open>
  The number of timestamps of \<open>ts\<close> in the trailing span of length \<open>span\<close> that ends at
  \<open>now\<close>, both ends included.
\<close>

definition trailing_count :: "int \<Rightarrow> time \<Rightarrow> time list \<Rightarrow> nat" where
  "trailing_count span now ts = length (filter (\<lambda>t. now - span \<le> t \<and> t \<le> now) ts)"

text \<open>
  The discipline of the one caller, \<^verbatim>\<open>handle_private_message\<close>: every \<open>add_request\<close>
  comes directly after a \<open>can_make_request\<close> that returned true.
\<close>

fun gated :: "RateLimiter \<Rightarrow> call list \<Rightarrow> bool" where
  "gated rl [] = True"
| "gated rl (AddRequest now # cs) = False"
| "gated rl (CanMakeRequest now # AddRequest now' # cs) =
     (snd (can_make_request now rl) \<and>
      gated (add_request now' (fst (can_make_request now rl))) cs)"
| "gated rl [CanMakeRequest now] = True"
| "gated rl (CanMakeRequest now # CanMakeRequest now' # cs) =
     gated (fst (can_make_request now rl)) (CanMakeRequest now' # cs)"

subsection \<open>Invariants of the windows\<close>

text \<open>
  \<open>window_inv\<close>: the minute window is a suffix of the day window and both are sorted.
  \<open>covers c span hist w\<close>: the window \<open>w\<close> is a suffix of the recorded timestamps
  \<open>hist\<close>, and every recorded timestamp that it has lost is older than \<open>span\<close> at
  time \<open>c\<close>. \<open>budget_inv\<close>: both windows are within capacity and cover the
  recorded timestamps.
\<close>

definition window_inv :: "RateLimiter \<Rightarrow> bool" where
  "window_inv rl \<longleftrightarrow>
     suffix (minute_window rl) (day_window rl) \<and> set (minute_window rl) \<subseteq> set (day_window rl) \<and>
     sorted (minute_window rl) \<and> sorted (day_window rl)"

definition covers :: "time \<Rightarrow> int \<Rightarrow> time list \<Rightarrow> time list \<Rightarrow> bool" where
  "covers c span hist w \<longleftrightarrow> (\<exists>pre. hist = pre @ w \<and> (\<forall>t\<in>set pre. t < c - span))"

definition budget_inv :: "time \<Rightarrow> time list \<Rightarrow> RateLimiter \<Rightarrow> bool" where
  "budget_inv c hist rl \<longleftrightarrow>
     int (length (minute_window rl)) \<le> requests_per_minute rl \<and>
     int (length (day_window rl)) \<le> requests_per_day rl \<and>
     covers c one_minute hist (minute_window rl) \<and> covers c one_day hist (day_window rl)"

section \<open>Python text\<close>

text \<open>
  A Python \<^verbatim>\<open>str\<close> is a sequence of Unicode code points; it is modelled as a list of
  code points, so that \<open>length\<close>, \<open>take\<close> and \<open>drop\<close> count what \<^verbatim>\<open>len\<close> and slices count.
  \<open>py ''...''\<close> is a literal. \<open>isspace\<close> is the whitespace of \<^verbatim>\<open>str.isspace\<close>, which
  \<^verbatim>\<open>strip\<close>, \<^verbatim>\<open>lstrip\<close> and \<^verbatim>\<open>split()\<close> use.
\<close>

type_synonym codepoint = nat

type_synonym pystr = "codepoint list"

definition py :: "string \<Rightarrow> pystr" where
  "py s = map of_char s"

definition isspace :: "codepoint \<Rightarrow> bool" where
  "isspace c \<longleftrightarrow>
     (9 \<le> c \<and> c \<le> 13) \<or> (28 \<le> c \<and> c \<le> 32) \<or> c = 133 \<or> c = 160 \<or> c = 5760 \<or>
     (8192 \<le> c \<and> c \<le> 8202) \<or> c = 8232 \<or> c = 8233 \<or> c = 8239 \<or> c = 8287 \<or> c = 12288"

definition lstrip :: "pystr \<Rightarrow> pystr" where
  "lstrip s = dropWhile isspace s"

definition rstrip :: "pystr \<Rightarrow> pystr" where
  "rstrip s = rev (dropWhile isspace (rev s))"

definition strip :: "pystr \<Rightarrow> pystr" where
  "strip s = lstrip (rstrip s)"

definition startswith :: "'a list \<Rightarrow> 'a list \<Rightarrow> bool" where
  "startswith s p \<longleftrightarrow> take (length p) s = p"

text \<open>
  \<^verbatim>\<open>s.rfind(c)\<close> for a single character \<open>c\<close>: the highest index of \<open>c\<close> in \<open>s\<close>; the
  \<open>-1\<close> of Python is \<open>None\<close>.
\<close>

fun rfind :: "'a list \<Rightarrow> 'a \<Rightarrow> nat option" where
  "rfind [] c = None"
| "rfind (x # xs) c =
     (case rfind xs c of
        Some i \<Rightarrow> Some (Suc i)
      | None \<Rightarrow> if x = c then Some 0 else None)"

section \<open>Effects\<close>

text \<open>
  What the bot does to the outside, in order: \<open>Send line\<close> is \<^verbatim>\<open>self.send(line)\<close>, which
  writes the line and \<^verbatim>\<open>\r\n\<close> to the socket (a failed write is printed and swallowed
  there, lines 96-102, so \<open>Send\<close> never raises); \<open>Sleep ms\<close> is \<^verbatim>\<open>time.sleep\<close>, in
  milliseconds; \<open>Request q\<close> is the \<^verbatim>\<open>requests.get\<close> of \<^verbatim>\<open>search_hearch\<close> with query
  \<open>q\<close>; \<open>Record\<close> is the call of \<^verbatim>\<open>rate_limiter.add_request()\<close>. The debug output of
  \<^verbatim>\<open>print\<close> is left out; a print that raises inside the \<^verbatim>\<open>try\<close> of \<^verbatim>\<open>search_hearch\<close> is
  part of what that call meets (see \<open>api_outcome\<close>).
\<close>

datatype effect = Send pystr | Sleep nat | Request pystr | Record

section \<open>send_private_message (searchbot.py, lines 104-126)\<close>

definition max_length :: nat where
  "max_length = 400"

definition privmsg :: "pystr \<Rightarrow> pystr \<Rightarrow> pystr" where
  "privmsg target text = py ''PRIVMSG '' @ target @ py '' :'' @ text"

text \<open>
  \<^verbatim>\<open>split_point = message[:max_length].rfind(' ')\<close>, and \<^verbatim>\<open>max_length\<close> when that is \<open>-1\<close>.
\<close>

definition split_point :: "pystr \<Rightarrow> nat" where
  "split_point message =
     (case rfind (take max_length message) 32 of None \<Rightarrow> max_length | Some i \<Rightarrow> i)"

lemma rfind_Some: "rfind s c = Some i \<Longrightarrow> i < length s \<and> s ! i = c"
  by (induction s arbitrary: i) (auto split: option.splits if_splits)

lemma split_point_shortens:
  assumes "max_length < length message"
  shows "length (lstrip (drop (split_point message) message)) < length message"
proof (cases "split_point message")
  case 0
  then obtain i where "rfind (take max_length message) 32 = Some i" and "i = 0"
    by (auto simp: split_point_def max_length_def split: option.splits)
  then have "take max_length message ! 0 = 32" and "0 < length (take max_length message)"
    using rfind_Some by fastforce+
  then obtain x xs where "message = x # xs" and "x = 32"
    by (cases message) (auto simp: max_length_def)
  then have "lstrip (drop 0 message) = lstrip xs"
    by (simp add: lstrip_def isspace_def)
  moreover have "length (lstrip xs) \<le> length xs"
    by (simp add: lstrip_def length_dropWhile_le)
  ultimately show ?thesis using 0 \<open>message = x # xs\<close> by simp
next
  case (Suc n)
  have "length (lstrip (drop (Suc n) message)) \<le> length (drop (Suc n) message)"
    unfolding lstrip_def by (rule length_dropWhile_le)
  also have "\<dots> < length message" using assms by simp
  finally show ?thesis using Suc by simp
qed

text \<open>
  The loop of \<^verbatim>\<open>send_private_message\<close>. No statement of its \<^verbatim>\<open>try\<close> block raises
  (\<^verbatim>\<open>self.send\<close> swallows its own failures), so the \<^verbatim>\<open>except\<close> branch is not reached.
\<close>

function send_private_message :: "pystr \<Rightarrow> pystr \<Rightarrow> effect list" where
  "send_private_message target message =
     (if message = [] then []
      else if length message \<le> max_length then [Send (privmsg target message)]
      else Send (privmsg target (take (split_point message) message)) # Sleep 500 #
           send_private_message target (lstrip (drop (split_point message) message)))"
  by pat_completeness auto
termination
  by (relation "measure (\<lambda>(target, message). length message)")
     (auto simp: split_point_shortens)

declare send_private_message.simps [simp del]

text \<open>
  The same loop, keeping for every line sent its payload (the chunk) and the whitespace
  that \<^verbatim>\<open>lstrip\<close> removes after it.
\<close>

function chunks :: "pystr \<Rightarrow> (pystr \<times> pystr) list" where
  "chunks message =
     (if message = [] then []
      else if length message \<le> max_length then [(message, [])]
      else (take (split_point message) message,
            takeWhile isspace (drop (split_point message) message)) #
           chunks (lstrip (drop (split_point message) message)))"
  by pat_completeness auto
termination
  by (relation "measure length") (auto simp: split_point_shortens)

declare chunks.simps [simp del]

text \<open>
  \<open>paced\<close> puts the pacing delay between consecutive sends and none after the last.
\<close>

fun paced :: "effect list \<Rightarrow> effect list" where
  "paced [] = []"
| "paced [e] = [e]"
| "paced (e # es) = e # Sleep 500 # paced es"

section \<open>More of Python's str\<close>

text \<open>
  \<^verbatim>\<open>s.replace(old, '')\<close>: the occurrences of \<open>old\<close> are removed from left to right,
  without overlap; an empty \<open>old\<close> leaves \<open>s\<close> as it is.
\<close>

function remove_all :: "'a list \<Rightarrow> 'a list \<Rightarrow> 'a list" where
  "remove_all old [] = []"
| "remove_all old (c # cs) =
     (if old \<noteq> [] \<and> take (length old) (c # cs) = old
      then remove_all old (drop (length old) (c # cs))
      else c # remove_all old cs)"
  by pat_completeness auto
termination
  by (relation "measure (\<lambda>(old, s). length s)") (auto simp: Suc_diff_le)

text \<open>
  \<^verbatim>\<open>s.split()\<close>: the maximal runs of characters that are not whitespace; \<open>cur\<close> is the
  run being read, reversed. \<^verbatim>\<open>sep.join(parts)\<close>.
\<close>

fun split_acc :: "pystr \<Rightarrow> pystr \<Rightarrow> pystr list" where
  "split_acc cur [] = (if cur = [] then [] else [rev cur])"
| "split_acc cur (c # cs) =
     (if isspace c then (if cur = [] then split_acc [] cs else rev cur # split_acc [] cs)
      else split_acc (c # cur) cs)"

definition split_whitespace :: "pystr \<Rightarrow> pystr list" where
  "split_whitespace s = split_acc [] s"

fun join :: "'a list \<Rightarrow> 'a list list \<Rightarrow> 'a list" where
  "join sep [] = []"
| "join sep [p] = p"
| "join sep (p # ps) = p @ sep @ join sep ps"

text \<open>\<^verbatim>\<open>str(n)\<close> for an integer, in decimal.\<close>

fun str_nat :: "nat \<Rightarrow> pystr" where
  "str_nat n = (if n < 10 then [48 + n] else str_nat (n div 10) @ [48 + n mod 10])"

declare str_nat.simps [simp del]

definition str_int :: "int \<Rightarrow> pystr" where
  "str_int i = (if i < 0 then 45 # str_nat (nat (- i)) else str_nat (nat i))"

section \<open>search_hearch (searchbot.py, lines 128-221)\<close>

text \<open>
  The exceptions of the source that the model has as values.
\<close>

datatype py_exception = IndexError | ValueError | AttributeError | UnicodeDecodeError

text \<open>
  One element of the \<^verbatim>\<open>results\<close> array of the search service, as
  \<^verbatim>\<open>format_search_result\<close> reads it: a value that is not a dict (it has no \<^verbatim>\<open>get\<close>), or a
  dict, of which the members \<^verbatim>\<open>title\<close>, \<^verbatim>\<open>url\<close> and \<^verbatim>\<open>description\<close> are each absent, a
  string, or a value that is not a string (it has no \<^verbatim>\<open>strip\<close>).
\<close>

datatype field = Absent | Str pystr | NonStr

datatype result = NotADict | Dict (get_title: field) (get_url: field) (get_description: field)

text \<open>
  What one call of \<^verbatim>\<open>search_hearch\<close> meets. \<open>PrintRaised\<close>: one of the debug prints before
  the request (lines 196-198, inside the \<^verbatim>\<open>try\<close>) raises, for example on a query that the
  terminal cannot encode; no request is made. \<open>RequestRaised\<close>: \<^verbatim>\<open>requests.get\<close> raises (a
  timeout, a transport error). \<open>ResponsePrintRaised\<close>: the request returns and one of the
  debug prints after it (lines 202-204, 209, 212) raises. \<open>Response status body\<close>: the
  request returns and no print raises; the body is no JSON (\<^verbatim>\<open>response.json()\<close> raises), a
  JSON value that is not an object (it has no \<^verbatim>\<open>get\<close>), an object without the member
  \<^verbatim>\<open>results\<close>, or an object whose member \<^verbatim>\<open>results\<close> is an array, a string, or a value on
  which \<^verbatim>\<open>len\<close> or the slice \<^verbatim>\<open>[:5]\<close> raises (null, a number, a boolean, an object). The
  print of the \<^verbatim>\<open>except\<close> clause is taken not to raise.
\<close>

datatype api_body =
  NotJson | NotAnObject | NoResultsKey | ResultsList "result list" | ResultsString pystr |
  ResultsOther

datatype api_outcome = PrintRaised | RequestRaised | Response int api_body | ResponsePrintRaised

text \<open>
  The value returned: a list, or the \<^verbatim>\<open>str\<close> that the slice of a JSON string is. Every
  raise inside the function is caught by its \<^verbatim>\<open>except Exception\<close> and gives the empty
  list. The second component is the request made, if any.
\<close>

datatype search_value = ResultList "result list" | ResultStr pystr

fun search_hearch :: "pystr \<Rightarrow> api_outcome \<Rightarrow> search_value \<times> effect list" where
  "search_hearch query PrintRaised = (ResultList [], [])"
| "search_hearch query RequestRaised = (ResultList [], [Request query])"
| "search_hearch query ResponsePrintRaised = (ResultList [], [Request query])"
| "search_hearch query (Response status body) =
     (if status = 200 then
        (case body of
           NotJson \<Rightarrow> ResultList []
         | NotAnObject \<Rightarrow> ResultList []
         | NoResultsKey \<Rightarrow> ResultList (take 5 [])
         | ResultsList results \<Rightarrow> ResultList (take 5 results)
         | ResultsString s \<Rightarrow> ResultStr (take 5 s)
         | ResultsOther \<Rightarrow> ResultList [])
      else ResultList [],
      [Request query])"



fun is_empty :: "search_value \<Rightarrow> bool" where
  "is_empty (ResultList rs) = (rs = [])"
| "is_empty (ResultStr s) = (s = [])"

fun items :: "search_value \<Rightarrow> result list" where
  "items (ResultList rs) = take 5 rs"
| "items (ResultStr s) = map (\<lambda>c. NotADict) (take 5 s)"



section \<open>format_search_result (searchbot.py, lines 223-258)\<close>

text \<open>
  \<^verbatim>\<open>result.get(key, default).strip()\<close>: \<^verbatim>\<open>AttributeError\<close> when the member is no string.
\<close>

fun get_strip :: "field \<Rightarrow> pystr \<Rightarrow> py_exception + pystr" where
  "get_strip Absent dflt = Inr (strip dflt)"
| "get_strip (Str s) dflt = Inr (strip s)"
| "get_strip NonStr dflt = Inl AttributeError"

definition truncate :: "nat \<Rightarrow> pystr \<Rightarrow> pystr" where
  "truncate n s = (if length s > n then take (n - 3) s @ py ''...'' else s)"

fun format_search_result :: "int \<Rightarrow> result \<Rightarrow> py_exception + pystr" where
  "format_search_result index NotADict = Inl AttributeError"
| "format_search_result index (Dict t u d) =
     (case get_strip t (py ''No title'') of Inl e \<Rightarrow> Inl e | Inr title \<Rightarrow>
      case get_strip u (py ''No URL'') of Inl e \<Rightarrow> Inl e | Inr url \<Rightarrow>
      case get_strip d [] of Inl e \<Rightarrow> Inl e | Inr desc0 \<Rightarrow>
        (let desc1 = remove_all url desc0;
             desc2 = join (py '' '') (split_whitespace desc1);
             title' = truncate 100 title;
             url' = truncate 100 url;
             desc = truncate 200 desc2;
             result_line = str_int index @ py ''. '' @ [3] @ py ''03'' @ title' @ [15] @
                           py '' | '' @ [3] @ py ''12'' @ url' @ [15]
         in Inr (if desc \<noteq> [] \<and> length desc > 20
                 then result_line @ py '' | '' @ [3] @ py ''14'' @ desc @ [15]
                 else result_line)))"

section \<open>handle_private_message (searchbot.py, lines 260-303)\<close>

text \<open>\<open>is_output\<close>: the effect is a line sent or a delay, neither a search nor a record.\<close>

fun is_output :: "effect \<Rightarrow> bool" where
  "is_output (Send line) = True"
| "is_output (Sleep ms) = True"
| "is_output (Request q) = False"
| "is_output Record = False"


text \<open>
  What one call of the handler reads from outside: the clock in \<open>can_make_request\<close>, the
  outcome of the search service, the clock in \<open>add_request\<close>.
\<close>

record env =
  now_check :: time
  outcome :: api_outcome
  now_record :: time

definition rate_limit_notice :: pystr where
  "rate_limit_notice = py ''Rate limit exceeded. Please try again later.''"

definition usage_notice :: pystr where
  "usage_notice = py ''Usage: !search <query>''"

definition no_results_notice :: pystr where
  "no_results_notice = py ''No results found.''"

definition error_notice :: pystr where
  "error_notice = py ''An error occurred processing your request.''"

definition attribution :: pystr where
  "attribution = [3] @ py ''14'' @ py ''Search results powered by '' @ [3] @ py ''12'' @
     py ''https://hearch.co/'' @ [3] @ py ''14'' @ py '' - Privacy-focused metasearch'' @ [15]"

definition help_msg :: pystr where
  "help_msg = py ''SearchBot Commands: '' @
     py ''!search <query> - Search the web privately (results sent via PM) | '' @
     py ''!help - Show this help message''"

text \<open>
  The loop over \<^verbatim>\<open>enumerate(results[:5], 1)\<close> and the attribution after it. A raise of
  \<^verbatim>\<open>format_search_result\<close> leaves the loop for the \<^verbatim>\<open>except\<close> of the handler, which sends
  the error notice.
\<close>

fun send_results :: "pystr \<Rightarrow> int \<Rightarrow> result list \<Rightarrow> effect list" where
  "send_results sender i [] = Sleep 500 # send_private_message sender attribution"
| "send_results sender i (r # rs) =
     (case format_search_result i r of
        Inl e \<Rightarrow> send_private_message sender error_notice
      | Inr formatted_result \<Rightarrow>
          send_private_message sender formatted_result @ Sleep 500 #
          send_results sender (i + 1) rs)"

text \<open>
  Lines 277-293: the reply to a search that has been made and recorded.
\<close>

definition reply_results :: "pystr \<Rightarrow> search_value \<Rightarrow> effect list" where
  "reply_results sender results =
     (if is_empty results then send_private_message sender no_results_notice
      else send_results sender 1 (items results))"

definition handle_private_message ::
  "env \<Rightarrow> RateLimiter \<Rightarrow> pystr \<Rightarrow> pystr \<Rightarrow> RateLimiter \<times> effect list" where
  "handle_private_message e rl sender message =
     (if startswith message (py ''!search '') then
        (let (rl1, ok) = can_make_request (now_check e) rl in
         if \<not> ok then (rl1, send_private_message sender rate_limit_notice)
         else
           (let query = strip (drop 8 message) in
            if query = [] then (rl1, send_private_message sender usage_notice)
            else
              (let (results, searched) = search_hearch query (outcome e);
                   rl2 = add_request (now_record e) rl1
               in (rl2, searched @ Record # reply_results sender results))))
      else if message = py ''!help'' then (rl, send_private_message sender help_msg)
      else (rl, []))"

section \<open>Splitting and searching text\<close>

text \<open>
  \<^verbatim>\<open>s.split(sep)\<close> for a separator that is not empty (the source splits on the
  literals \<^verbatim>\<open>"\r\n"\<close>, \<^verbatim>\<open>"!"\<close>, \<^verbatim>\<open>"PRIVMSG "\<close> and \<^verbatim>\<open>":"\<close>): the pieces between the
  occurrences of \<open>sep\<close>, found from left to right without overlap. The result is never
  empty. \<open>split_once\<close> is \<^verbatim>\<open>s.split(sep, 1)\<close>, which splits at the first occurrence only.
\<close>

function py_split :: "'a list \<Rightarrow> 'a list \<Rightarrow> 'a list list" where
  "py_split sep [] = [[]]"
| "py_split sep (c # cs) =
     (if sep \<noteq> [] \<and> take (length sep) (c # cs) = sep
      then [] # py_split sep (drop (length sep) (c # cs))
      else (case py_split sep cs of p # ps \<Rightarrow> (c # p) # ps | [] \<Rightarrow> [[c]]))"
  by pat_completeness auto
termination
  by (relation "measure (\<lambda>(sep, s). length s)") (auto simp: Suc_diff_le)

fun split_once :: "'a list \<Rightarrow> 'a list \<Rightarrow> 'a list list" where
  "split_once sep [] = [[]]"
| "split_once sep (c # cs) =
     (if sep \<noteq> [] \<and> take (length sep) (c # cs) = sep
      then [[], drop (length sep) (c # cs)]
      else (case split_once sep cs of p # ps \<Rightarrow> (c # p) # ps | [] \<Rightarrow> [[c]]))"

text \<open>\<^verbatim>\<open>sub in s\<close>\<close>

fun contains :: "'a list \<Rightarrow> 'a list \<Rightarrow> bool" where
  "contains [] sub = (sub = [])"
| "contains (c # cs) sub = (take (length sub) (c # cs) = sub \<or> contains cs sub)"

section \<open>Decoding the bytes received\<close>

text \<open>
  \<^verbatim>\<open>bytes.decode("UTF-8")\<close>, strict: the code points of a well-formed UTF-8 sequence, and
  \<open>None\<close> for the \<^verbatim>\<open>UnicodeDecodeError\<close> that any other sequence raises (a byte that
  cannot start a character, a missing or wrong continuation byte, an overlong form, a
  surrogate, a code point above \<open>0x10FFFF\<close>, a sequence cut off at the end).
\<close>

type_synonym byte = "8 word"

definition cont :: "byte \<Rightarrow> bool" where
  "cont b \<longleftrightarrow> 0x80 \<le> b \<and> b \<le> 0xBF"

definition low6 :: "byte \<Rightarrow> nat" where
  "low6 b = unat b mod 64"

definition second3 :: "byte \<Rightarrow> byte \<Rightarrow> bool" where
  "second3 b0 b1 =
     (if b0 = 0xE0 then 0xA0 \<le> b1 \<and> b1 \<le> 0xBF
      else if b0 = 0xED then 0x80 \<le> b1 \<and> b1 \<le> 0x9F
      else cont b1)"

definition second4 :: "byte \<Rightarrow> byte \<Rightarrow> bool" where
  "second4 b0 b1 =
     (if b0 = 0xF0 then 0x90 \<le> b1 \<and> b1 \<le> 0xBF
      else if b0 = 0xF4 then 0x80 \<le> b1 \<and> b1 \<le> 0x8F
      else cont b1)"

definition lead2 :: "byte \<Rightarrow> bool" where
  "lead2 b0 \<longleftrightarrow> 0xC2 \<le> b0 \<and> b0 \<le> 0xDF"

definition lead3 :: "byte \<Rightarrow> bool" where
  "lead3 b0 \<longleftrightarrow> 0xE0 \<le> b0 \<and> b0 \<le> 0xEF"

definition lead4 :: "byte \<Rightarrow> bool" where
  "lead4 b0 \<longleftrightarrow> 0xF0 \<le> b0 \<and> b0 \<le> 0xF4"

fun utf8_decode :: "byte list \<Rightarrow> pystr option" where
  "utf8_decode [] = Some []"
| "utf8_decode (b0 # bs) =
     (if b0 < 0x80 then map_option ((#) (unat b0)) (utf8_decode bs)
      else if lead2 b0 then
        (case bs of
           b1 # rest \<Rightarrow>
             if cont b1
             then map_option ((#) (unat b0 mod 32 * 64 + low6 b1)) (utf8_decode rest)
             else None
         | _ \<Rightarrow> None)
      else if lead3 b0 then
        (case bs of
           b1 # b2 # rest \<Rightarrow>
             if second3 b0 b1 \<and> cont b2
             then map_option ((#) (unat b0 mod 16 * 4096 + low6 b1 * 64 + low6 b2))
                    (utf8_decode rest)
             else None
         | _ \<Rightarrow> None)
      else if lead4 b0 then
        (case bs of
           b1 # b2 # b3 # rest \<Rightarrow>
             if second4 b0 b1 \<and> cont b2 \<and> cont b3
             then map_option
                    ((#) (unat b0 mod 8 * 262144 + low6 b1 * 4096 + low6 b2 * 64 + low6 b3))
                    (utf8_decode rest)
             else None
         | _ \<Rightarrow> None)
      else None)"

section \<open>Line framing in run (searchbot.py, lines 319-325 and 351-353)\<close>

definition crlf :: pystr where
  "crlf = [13, 10]"

text \<open>
  One pass of the receive loop up to the dispatch: the bytes of \<^verbatim>\<open>recv\<close> are decoded
  and appended to the buffer, the buffer is split on \<^verbatim>\<open>"\r\n"\<close>, the last piece is kept
  as the new buffer and the other pieces are the lines. On \<^verbatim>\<open>UnicodeDecodeError\<close> the
  buffer is emptied and there are no lines. The result is the new buffer and the lines.
\<close>

definition feed :: "pystr \<Rightarrow> byte list \<Rightarrow> pystr \<times> pystr list" where
  "feed buffer data =
     (case utf8_decode data of
        None \<Rightarrow> ([], [])
      | Some text \<Rightarrow>
          (let lines = py_split crlf (buffer @ text) in (last lines, butlast lines)))"


section \<open>handle_channel_message and the dispatch of run (searchbot.py, lines 305-358)\<close>

definition nickname :: pystr where
  "nickname = py ''SearchBot''"

definition channels :: "pystr list" where
  "channels = [py ''#test_room'']"

definition channel_help_msg :: pystr where
  "channel_help_msg =
     py ''SearchBot: Use !search <query> in a private message to search privately. '' @
     py ''Results will be sent to you directly.''"

definition channel_redirect :: pystr where
  "channel_redirect =
     py '': To protect your privacy, please use search commands in a private message.''"

definition handle_channel_message :: "pystr \<Rightarrow> pystr \<Rightarrow> pystr \<Rightarrow> effect list" where
  "handle_channel_message sender channel message =
     (if message = py ''!help'' then [Send (privmsg channel channel_help_msg)]
      else if startswith message (py ''!search'')
      then [Send (privmsg channel (sender @ channel_redirect))]
      else [])"

text \<open>
  The body of \<^verbatim>\<open>for line in lines\<close>. The third component is the exception that leaves
  the body, if any: the \<^verbatim>\<open>IndexError\<close> of \<^verbatim>\<open>line.split()[1]\<close> (line 331, outside the
  \<^verbatim>\<open>try\<close>) and the \<^verbatim>\<open>ValueError\<close> of the unpacking \<^verbatim>\<open>target, message = ...\<close> (line 338,
  which \<^verbatim>\<open>except IndexError\<close> does not catch). The \<^verbatim>\<open>IndexError\<close> of
  \<^verbatim>\<open>line.split("PRIVMSG ", 1)[1]\<close> is caught and the line is skipped.
\<close>

definition ping_reply :: "pystr \<Rightarrow> py_exception + effect list" where
  "ping_reply line =
     (if startswith line (py ''PING'') then
        (case split_whitespace line of
           t0 # ping_token # ts \<Rightarrow> Inr [Send (py ''PONG '' @ ping_token)]
         | _ \<Rightarrow> Inl IndexError)
      else Inr [])"

definition dispatch_privmsg ::
  "env \<Rightarrow> RateLimiter \<Rightarrow> pystr \<Rightarrow> RateLimiter \<times> effect list \<times> py_exception option" where
  "dispatch_privmsg e rl line =
     (if contains line (py ''PRIVMSG'') then
        (let sender = drop 1 (hd (py_split (py ''!'') line)) in
         case split_once (py ''PRIVMSG '') line of
           p0 # msg_parts # ps \<Rightarrow>
             (case split_once (py '':'') msg_parts of
                [target0, message0] \<Rightarrow>
                  (let target = strip target0; message = strip message0 in
                   if target = nickname then
                     (let (rl', effs) = handle_private_message e rl sender message
                      in (rl', effs, None))
                   else if target \<in> set channels then
                     (rl, handle_channel_message sender target message, None)
                   else (rl, [], None))
              | _ \<Rightarrow> (rl, [], Some ValueError))
         | _ \<Rightarrow> (rl, [], None))
      else (rl, [], None))"

definition dispatch_line ::
  "env \<Rightarrow> RateLimiter \<Rightarrow> pystr \<Rightarrow> RateLimiter \<times> effect list \<times> py_exception option" where
  "dispatch_line e rl line =
     (case ping_reply line of
        Inl ex \<Rightarrow> (rl, [], Some ex)
      | Inr pong \<Rightarrow>
          (let (rl', effs, ex) = dispatch_privmsg e rl line in (rl', pong @ effs, ex)))"

text \<open>
  The \<^verbatim>\<open>for\<close> loop: each line comes with what its handling reads from outside. An
  exception that leaves the body ends the loop; the lines after it are not processed.
\<close>

fun dispatch_lines ::
  "RateLimiter \<Rightarrow> (env \<times> pystr) list \<Rightarrow> RateLimiter \<times> effect list \<times> py_exception option" where
  "dispatch_lines rl [] = (rl, [], None)"
| "dispatch_lines rl ((e, line) # rest) =
     (case dispatch_line e rl line of
        (rl1, effs1, Some ex) \<Rightarrow> (rl1, effs1, Some ex)
      | (rl1, effs1, None) \<Rightarrow>
          (let (rl2, effs2, ex) = dispatch_lines rl1 rest in (rl2, effs1 @ effs2, ex)))"

text \<open>
  One pass of the inner \<^verbatim>\<open>while True\<close> of \<^verbatim>\<open>run\<close>, for the bytes that \<^verbatim>\<open>recv\<close> returns:
  the new buffer, the limiter, the effects, and whether the session goes on. An
  exception that leaves the dispatch reaches the outer \<^verbatim>\<open>except Exception\<close> (lines
  355-358): the bot sleeps 30 seconds and connects anew, and the session with its buffer
  is given up.
\<close>

datatype session = Continues | Abandoned py_exception

definition run_step ::
  "(nat \<Rightarrow> env) \<Rightarrow> pystr \<Rightarrow> RateLimiter \<Rightarrow> byte list \<Rightarrow>
   pystr \<times> RateLimiter \<times> effect list \<times> session" where
  "run_step envs buffer rl data =
     (let (buffer', lines) = feed buffer data;
          (rl', effs, ex) = dispatch_lines rl (map (\<lambda>i. (envs i, lines ! i)) [0..<length lines])
      in case ex of
           None \<Rightarrow> (buffer', rl', effs, Continues)
         | Some x \<Rightarrow> ([], rl', effs @ [Sleep 30000], Abandoned x))"

section \<open>Properties of the RateLimiter\<close>


lemma popleft_dropWhile:
  "popleft_while_older limit ts = dropWhile (\<lambda>t. t < limit) ts"
  by (induction ts) auto

lemma suffix_popleft: "suffix (popleft_while_older limit ts) ts"
  by (simp add: popleft_dropWhile suffix_dropWhile)

lemma length_popleft: "length (popleft_while_older limit ts) \<le> length ts"
  by (simp add: popleft_dropWhile length_dropWhile_le)

lemma sorted_popleft: "sorted ts \<Longrightarrow> sorted (popleft_while_older limit ts)"
  by (simp add: popleft_dropWhile sorted_dropWhile)

lemma popleft_filter:
  "sorted ts \<Longrightarrow> popleft_while_older limit ts = filter (\<lambda>t. limit \<le> t) ts"
proof (induction ts)
  case Nil
  then show ?case by simp
next
  case (Cons t ts)
  show ?case
  proof (cases "t < limit")
    case True
    with Cons show ?thesis by simp
  next
    case False
    with Cons.prems have "\<forall>u\<in>set ts. limit \<le> u" by auto
    then have "filter (\<lambda>t. limit \<le> t) ts = ts" by (simp add: filter_id_conv)
    with False show ?thesis by simp
  qed
qed

lemma popleft_twice:
  "l1 \<le> l2 \<Longrightarrow> popleft_while_older l2 (popleft_while_older l1 ts) = popleft_while_older l2 ts"
  by (induction ts) auto

lemma popleft_append:
  "popleft_while_older limit (pre @ ts) =
     (if \<forall>t\<in>set pre. t < limit then popleft_while_older limit ts
      else popleft_while_older limit pre @ ts)"
  by (induction pre) auto

lemma suffix_popleft_both:
  assumes "suffix mw dw" and "l1 \<le> l2"
  shows "suffix (popleft_while_older l2 mw) (popleft_while_older l1 dw)"
proof -
  from assms(1) obtain pre where dw: "dw = pre @ mw" by (auto simp: suffix_def)
  show ?thesis
  proof (cases "\<forall>t\<in>set pre. t < l1")
    case True
    then have "popleft_while_older l1 dw = popleft_while_older l1 mw"
      by (simp add: dw popleft_append)
    moreover have "suffix (popleft_while_older l2 (popleft_while_older l1 mw)) (popleft_while_older l1 mw)"
      by (rule suffix_popleft)
    ultimately show ?thesis using assms(2) by (simp add: popleft_twice)
  next
    case False
    then have "popleft_while_older l1 dw = popleft_while_older l1 pre @ mw"
      by (auto simp: dw popleft_append)
    moreover have "suffix (popleft_while_older l2 mw) mw" by (rule suffix_popleft)
    ultimately show ?thesis by (simp add: suffix_appendI)
  qed
qed

lemma minute_le_day: "now - one_day \<le> now - one_minute"
  by (simp add: one_day_def one_minute_def)

lemma window_inv_can_make_request:
  assumes "window_inv rl"
  shows "window_inv (fst (can_make_request now rl))"
proof -
  let ?mw = "popleft_while_older (now - one_minute) (minute_window rl)"
  let ?dw = "popleft_while_older (now - one_day) (day_window rl)"
  have s: "suffix ?mw ?dw"
    using assms minute_le_day by (simp add: window_inv_def suffix_popleft_both)
  then have "set ?mw \<subseteq> set ?dw" by (rule set_mono_suffix)
  with s assms show ?thesis
    by (simp add: window_inv_def can_make_request_def Let_def sorted_popleft)
qed

lemma window_inv_add_request:
  assumes "window_inv rl" and "\<forall>t\<in>set (day_window rl). t \<le> now"
  shows "window_inv (add_request now rl)"
  using assms by (auto simp: window_inv_def add_request_def sorted_append)

lemma day_bound_can_make_request:
  "\<forall>t\<in>set (day_window rl). t \<le> c \<Longrightarrow>
   \<forall>t\<in>set (day_window (fst (can_make_request now rl))). t \<le> c"
  using set_mono_suffix [OF suffix_popleft [of "now - one_day" "day_window rl"]]
  by (auto simp: can_make_request_def Let_def)

lemma window_inv_run_calls:
  "window_inv rl \<Longrightarrow> \<forall>t\<in>set (day_window rl). t \<le> c \<Longrightarrow>
   sorted (map call_time cs) \<Longrightarrow> \<forall>e\<in>set cs. c \<le> call_time e \<Longrightarrow>
   window_inv (run_calls rl cs)"
proof (induction cs arbitrary: rl c)
  case Nil
  then show ?case by simp
next
  case (Cons e cs)
  show ?case
  proof (cases e)
    case (CanMakeRequest now)
    have "window_inv (fst (can_make_request now rl))"
      using Cons.prems(1) by (rule window_inv_can_make_request)
    moreover have "\<forall>t\<in>set (day_window (fst (can_make_request now rl))). t \<le> c"
      using Cons.prems(2) by (rule day_bound_can_make_request)
    ultimately have "window_inv (run_calls (fst (can_make_request now rl)) cs)"
      using Cons.prems(3,4) by (intro Cons.IH [where c = c]) auto
    with CanMakeRequest show ?thesis by simp
  next
    case (AddRequest now)
    have le: "c \<le> now" using Cons.prems(4) AddRequest by simp
    have "window_inv (add_request now rl)"
      using Cons.prems(1,2) le by (intro window_inv_add_request) auto
    moreover have "\<forall>t\<in>set (day_window (add_request now rl)). t \<le> now"
      using Cons.prems(2) le by (auto simp: add_request_def)
    ultimately have "window_inv (run_calls (add_request now rl) cs)"
      using Cons.prems(3) AddRequest by (intro Cons.IH [where c = now]) auto
    with AddRequest show ?thesis by simp
  qed
qed

text \<open>
  Claim C10. In every state that a sequence of \<open>can_make_request\<close> and \<open>add_request\<close>
  calls reaches from the empty limiter under a non-decreasing clock, the minute window is
  a suffix of the day window (so each of its timestamps is in the day window) and both
  windows are sorted in non-decreasing order. \<open>can_make_request\<close> preserves this, and
  \<open>add_request\<close> preserves it when its clock value is not below a recorded timestamp.
\<close>

theorem windows_suffix_sorted:
  "(sorted (map call_time cs) \<longrightarrow> window_inv (run_calls (RateLimiter_init rpm rpd) cs)) \<and>
   (window_inv rl \<longrightarrow> window_inv (fst (can_make_request now rl))) \<and>
   (window_inv rl \<and> (\<forall>t\<in>set (day_window rl). t \<le> now) \<longrightarrow> window_inv (add_request now rl))"
proof (intro conjI impI)
  assume s: "sorted (map call_time cs)"
  show "window_inv (run_calls (RateLimiter_init rpm rpd) cs)"
  proof (cases cs)
    case Nil
    then show ?thesis by (simp add: window_inv_def RateLimiter_init_def)
  next
    case (Cons e es)
    have a: "window_inv (RateLimiter_init rpm rpd)"
      by (simp add: window_inv_def RateLimiter_init_def)
    have b: "\<forall>t\<in>set (day_window (RateLimiter_init rpm rpd)). t \<le> call_time e"
      by (simp add: RateLimiter_init_def)
    have c: "\<forall>x\<in>set cs. call_time e \<le> call_time x"
      using s Cons by auto
    show ?thesis by (rule window_inv_run_calls [OF a b s c])
  qed
next
  assume "window_inv rl"
  then show "window_inv (fst (can_make_request now rl))"
    by (rule window_inv_can_make_request)
next
  assume "window_inv rl \<and> (\<forall>t\<in>set (day_window rl). t \<le> now)"
  then show "window_inv (add_request now rl)"
    by (simp add: window_inv_add_request)
qed


theorem windows_suffix_sorted_witness:
  "window_inv (run_calls (RateLimiter_init 5 500)
     [CanMakeRequest 0, AddRequest 3, CanMakeRequest 60000002, AddRequest 60000004]) \<and>
   window_inv (fst (can_make_request 60000009
     \<lparr>requests_per_minute = 5, requests_per_day = 500,
      minute_window = [8, 9], day_window = [1, 8, 9]\<rparr>)) \<and>
   window_inv (add_request 60000009
     \<lparr>requests_per_minute = 5, requests_per_day = 500,
      minute_window = [8, 9], day_window = [1, 8, 9]\<rparr>)"
  using windows_suffix_sorted [of
     "[CanMakeRequest 0, AddRequest 3, CanMakeRequest 60000002, AddRequest 60000004]" 5 500
     "\<lparr>requests_per_minute = 5, requests_per_day = 500,
      minute_window = [8, 9], day_window = [1, 8, 9]\<rparr>" 60000009]
  by (simp add: window_inv_def suffix_def)

lemma covers_mono: "covers c span hist w \<Longrightarrow> c \<le> c' \<Longrightarrow> covers c' span hist w"
  by (fastforce simp: covers_def)

lemma covers_popleft:
  assumes "covers c span hist w" and "c \<le> now"
  shows "covers now span hist (popleft_while_older (now - span) w)"
proof -
  from assms(1) obtain pre where h: "hist = pre @ w" and old: "\<forall>t\<in>set pre. t < c - span"
    by (auto simp: covers_def)
  let ?P = "\<lambda>t. t < now - span"
  have "hist = (pre @ takeWhile ?P w) @ dropWhile ?P w" by (simp add: h)
  moreover have "\<forall>t\<in>set (pre @ takeWhile ?P w). t < now - span"
    using old assms(2) by (fastforce dest: set_takeWhileD)
  ultimately show ?thesis unfolding covers_def popleft_dropWhile by blast
qed

lemma covers_append:
  "covers c span hist w \<Longrightarrow> covers c span (hist @ [t]) (w @ [t])"
  by (auto simp: covers_def)

lemma covers_count:
  assumes "covers c span hist w" and "c \<le> now"
  shows "trailing_count span now hist \<le> length w"
proof -
  from assms(1) obtain pre where h: "hist = pre @ w" and old: "\<forall>t\<in>set pre. t < c - span"
    by (auto simp: covers_def)
  have "filter (\<lambda>t. now - span \<le> t \<and> t \<le> now) pre = []"
    using old assms(2) by (fastforce simp: filter_empty_conv)
  then show ?thesis by (simp add: trailing_count_def h)
qed

lemma budget_inv_mono: "budget_inv c hist rl \<Longrightarrow> c \<le> c' \<Longrightarrow> budget_inv c' hist rl"
  by (auto simp: budget_inv_def intro: covers_mono)

lemma budget_inv_can_make_request:
  assumes "budget_inv c hist rl" and "c \<le> now"
  shows "budget_inv now hist (fst (can_make_request now rl))"
proof -
  have "length (popleft_while_older (now - one_minute) (minute_window rl)) \<le> length (minute_window rl)"
    and "length (popleft_while_older (now - one_day) (day_window rl)) \<le> length (day_window rl)"
    by (rule length_popleft)+
  with assms show ?thesis
    by (auto simp: budget_inv_def can_make_request_def Let_def intro: covers_popleft)
qed

lemma budget_inv_add_request:
  assumes "budget_inv c hist (fst (can_make_request now rl))"
    and "snd (can_make_request now rl)"
  shows "budget_inv c (hist @ [now']) (add_request now' (fst (can_make_request now rl)))"
  using assms
  by (auto simp: budget_inv_def can_make_request_def add_request_def Let_def intro: covers_append)

lemma budget_inv_run_calls:
  "gated rl cs \<Longrightarrow> sorted (map call_time cs) \<Longrightarrow> \<forall>e\<in>set cs. c \<le> call_time e \<Longrightarrow>
   \<forall>e\<in>set cs. call_time e \<le> now \<Longrightarrow> c \<le> now \<Longrightarrow> budget_inv c hist rl \<Longrightarrow>
   budget_inv now (hist @ recorded cs) (run_calls rl cs)"
proof (induction rl cs arbitrary: c hist rule: gated.induct)
  case (1 rl)
  then show ?case by (simp add: budget_inv_mono)
next
  case (2 rl t cs)
  then show ?case by simp
next
  case (3 rl t t' cs)
  let ?rl1 = "fst (can_make_request t rl)"
  have ct: "c \<le> t" and tt': "t \<le> t'" and t'now: "t' \<le> now"
    using "3.prems" by auto
  have "budget_inv t hist ?rl1"
    using "3.prems"(6) ct by (rule budget_inv_can_make_request)
  then have "budget_inv t' hist ?rl1" using tt' by (rule budget_inv_mono)
  then have inv2: "budget_inv t' (hist @ [t']) (add_request t' ?rl1)"
    using "3.prems"(1) by (intro budget_inv_add_request) simp_all
  have "budget_inv now ((hist @ [t']) @ recorded cs) (run_calls (add_request t' ?rl1) cs)"
    using "3.prems" t'now inv2 by (intro "3.IH" [where c = t']) auto
  then show ?case by simp
next
  case (4 rl t)
  have "budget_inv t hist (fst (can_make_request t rl))"
    using "4.prems" by (intro budget_inv_can_make_request [where c = c]) auto
  then show ?case using "4.prems" by (auto intro: budget_inv_mono)
next
  case (5 rl t v va)
  let ?rl1 = "fst (can_make_request t rl)"
  have inv1: "budget_inv t hist ?rl1"
    using "5.prems" by (intro budget_inv_can_make_request [where c = c]) auto
  have "budget_inv now (hist @ recorded (CanMakeRequest v # va)) (run_calls ?rl1 (CanMakeRequest v # va))"
    using "5.prems" inv1 by (intro "5.IH" [where c = t]) auto
  then show ?case by simp
qed

lemma gated_take: "gated rl cs \<Longrightarrow> gated rl (take n cs)"
proof (induction rl cs arbitrary: n rule: gated.induct)
  case (1 rl)
  then show ?case by simp
next
  case (2 rl t cs)
  then show ?case by simp
next
  case (3 rl t t' cs)
  show ?case
  proof (cases n)
    case 0
    then show ?thesis by simp
  next
    case (Suc m)
    show ?thesis
    proof (cases m)
      case 0
      with Suc show ?thesis by simp
    next
      case (Suc k)
      with \<open>n = Suc m\<close> "3.prems" "3.IH" [of k] show ?thesis by simp
    qed
  qed
next
  case (4 rl t)
  then show ?case by (cases n) simp_all
next
  case (5 rl t v va)
  show ?case
  proof (cases n)
    case 0
    then show ?thesis by simp
  next
    case (Suc m)
    have "gated (fst (can_make_request t rl)) (take m (CanMakeRequest v # va))"
      using "5.prems" by (intro "5.IH") simp
    with Suc show ?thesis by (cases m) simp_all
  qed
qed

lemma run_calls_capacities:
  "requests_per_minute (run_calls rl cs) = requests_per_minute rl \<and>
   requests_per_day (run_calls rl cs) = requests_per_day rl"
proof (induction cs arbitrary: rl)
  case Nil
  then show ?case by simp
next
  case (Cons e cs)
  then show ?case
    by (cases e) (simp_all add: can_make_request_def add_request_def Let_def)
qed

text \<open>
  Claim C1, as amended. Take non-negative capacities, a sequence of calls in which every
  \<open>add_request\<close> comes directly after a \<open>can_make_request\<close> that returned true, and a
  non-decreasing clock. Then at every moment (after any number \<open>n\<close> of the calls, at
  any time \<open>now\<close> not before them) the number of recorded timestamps within the trailing
  minute is at most \<open>requests_per_minute\<close>, and the number within the trailing day is at
  most \<open>requests_per_day\<close>.
\<close>

theorem gated_budget:
  assumes "0 \<le> rpm" and "0 \<le> rpd"
    and "gated (RateLimiter_init rpm rpd) cs"
    and "sorted (map call_time cs)"
    and "\<forall>e\<in>set (take n cs). call_time e \<le> now"
  shows "int (trailing_count one_minute now (recorded (take n cs))) \<le> rpm \<and>
         int (trailing_count one_day now (recorded (take n cs))) \<le> rpd"
proof -
  let ?cs = "take n cs"
  let ?rl = "run_calls (RateLimiter_init rpm rpd) ?cs"
  define c where "c = (if ?cs = [] then now else call_time (hd ?cs))"
  have g: "gated (RateLimiter_init rpm rpd) ?cs" using assms(3) by (rule gated_take)
  have s: "sorted (map call_time ?cs)"
    using assms(4) by (simp add: sorted_wrt_take flip: take_map)
  have lo: "\<forall>e\<in>set ?cs. c \<le> call_time e"
  proof (cases ?cs)
    case Nil
    then show ?thesis by auto
  next
    case (Cons e es)
    with s show ?thesis by (auto simp: c_def)
  qed
  have cn: "c \<le> now" using assms(5) by (cases ?cs) (auto simp: c_def)
  have init: "budget_inv c [] (RateLimiter_init rpm rpd)"
    using assms(1,2) by (simp add: budget_inv_def covers_def RateLimiter_init_def)
  have inv: "budget_inv now ([] @ recorded ?cs) ?rl"
    using g s lo assms(5) cn init by (rule budget_inv_run_calls)
  have rpm: "requests_per_minute ?rl = rpm \<and> requests_per_day ?rl = rpd"
    by (simp add: run_calls_capacities RateLimiter_init_def)
  have "trailing_count one_minute now (recorded ?cs) \<le> length (minute_window ?rl)"
    using inv by (intro covers_count [where c = now]) (simp_all add: budget_inv_def)
  moreover have "trailing_count one_day now (recorded ?cs) \<le> length (day_window ?rl)"
    using inv by (intro covers_count [where c = now]) (simp_all add: budget_inv_def)
  ultimately show ?thesis using inv rpm by (simp add: budget_inv_def)
qed


theorem gated_budget_witness:
  "gated (RateLimiter_init 1 2)
     [CanMakeRequest 0, AddRequest 5, CanMakeRequest 10, CanMakeRequest 60000006,
      AddRequest 60000007] \<and>
   int (trailing_count one_minute 60000007 (recorded (take 5
     [CanMakeRequest 0, AddRequest 5, CanMakeRequest 10, CanMakeRequest 60000006,
      AddRequest 60000007]))) \<le> 1 \<and>
   int (trailing_count one_day 60000007 (recorded (take 5
     [CanMakeRequest 0, AddRequest 5, CanMakeRequest 10, CanMakeRequest 60000006,
      AddRequest 60000007]))) \<le> 2"
  using gated_budget [of 1 2
     "[CanMakeRequest 0, AddRequest 5, CanMakeRequest 10, CanMakeRequest 60000006,
       AddRequest 60000007]" 5 60000007]
  by (simp add: RateLimiter_init_def can_make_request_def add_request_def Let_def
      one_minute_def one_day_def)

text \<open>
  Claim C1, as stated, quantifies over any sequence of calls. \<open>add_request\<close> appends
  unconditionally, so two calls of it at one instant exceed a capacity of one.
\<close>

theorem ungated_budget_counterexample:
  "minute_window (run_calls (RateLimiter_init 1 1) [AddRequest 0, AddRequest 0]) = [0, 0] \<and>
   \<not> int (trailing_count one_minute 0 (recorded [AddRequest 0, AddRequest 0]))
       \<le> requests_per_minute (run_calls (RateLimiter_init 1 1) [AddRequest 0, AddRequest 0])"
  by (simp add: RateLimiter_init_def add_request_def trailing_count_def one_minute_def)

text \<open>
  The clock matters as well: a wall clock that steps back lets a pruned timestamp fall
  inside the trailing minute again.
\<close>

lemma backward_clock_exceeds_budget:
  "gated (RateLimiter_init 1 5)
     [CanMakeRequest 0, AddRequest 0, CanMakeRequest 60000001, CanMakeRequest 0, AddRequest 0] \<and>
   trailing_count one_minute 0 (recorded
     [CanMakeRequest 0, AddRequest 0, CanMakeRequest 60000001, CanMakeRequest 0, AddRequest 0]) = 2"
  by (simp add: RateLimiter_init_def can_make_request_def add_request_def Let_def
      trailing_count_def one_minute_def one_day_def)

text \<open>
  Claim C2. \<open>can_make_request\<close> first drops from the head of each window the timestamps
  strictly older than the window's duration (for a sorted window these are all the
  timestamps older than it; one exactly at the edge stays), leaves the capacities alone,
  and then returns true iff the minute window is shorter than \<open>requests_per_minute\<close> and
  the day window is shorter than \<open>requests_per_day\<close>. With exactly
  \<open>requests_per_minute\<close> timestamps, all within the last minute, it returns false; once
  the oldest of them is older than one minute it returns true, when the day window has
  room.
\<close>

theorem can_make_request_contract:
  "minute_window (fst (can_make_request now rl)) =
     dropWhile (\<lambda>t. t < now - one_minute) (minute_window rl) \<and>
   day_window (fst (can_make_request now rl)) =
     dropWhile (\<lambda>t. t < now - one_day) (day_window rl) \<and>
   (sorted (minute_window rl) \<longrightarrow>
      minute_window (fst (can_make_request now rl)) =
        filter (\<lambda>t. now - one_minute \<le> t) (minute_window rl)) \<and>
   (sorted (day_window rl) \<longrightarrow>
      day_window (fst (can_make_request now rl)) =
        filter (\<lambda>t. now - one_day \<le> t) (day_window rl)) \<and>
   requests_per_minute (fst (can_make_request now rl)) = requests_per_minute rl \<and>
   requests_per_day (fst (can_make_request now rl)) = requests_per_day rl \<and>
   (snd (can_make_request now rl) \<longleftrightarrow>
      int (length (minute_window (fst (can_make_request now rl)))) < requests_per_minute rl \<and>
      int (length (day_window (fst (can_make_request now rl)))) < requests_per_day rl) \<and>
   (int (length (minute_window rl)) = requests_per_minute rl \<and>
    (\<forall>t\<in>set (minute_window rl). now - one_minute \<le> t) \<longrightarrow>
      \<not> snd (can_make_request now rl)) \<and>
   (minute_window rl \<noteq> [] \<and> sorted (minute_window rl) \<and>
    int (length (minute_window rl)) = requests_per_minute rl \<and>
    Min (set (minute_window rl)) < now - one_minute \<and>
    int (length (day_window (fst (can_make_request now rl)))) < requests_per_day rl \<longrightarrow>
      snd (can_make_request now rl))"
proof (intro conjI impI)
  show "snd (can_make_request now rl) \<longleftrightarrow>
      int (length (minute_window (fst (can_make_request now rl)))) < requests_per_minute rl \<and>
      int (length (day_window (fst (can_make_request now rl)))) < requests_per_day rl"
    by (simp add: can_make_request_def Let_def)
next
  assume a: "int (length (minute_window rl)) = requests_per_minute rl \<and>
    (\<forall>t\<in>set (minute_window rl). now - one_minute \<le> t)"
  then have "dropWhile (\<lambda>t. t < now - one_minute) (minute_window rl) = minute_window rl"
    by (cases "minute_window rl") auto
  with a show "\<not> snd (can_make_request now rl)"
    by (simp add: can_make_request_def Let_def popleft_dropWhile)
next
  assume a: "minute_window rl \<noteq> [] \<and> sorted (minute_window rl) \<and>
    int (length (minute_window rl)) = requests_per_minute rl \<and>
    Min (set (minute_window rl)) < now - one_minute \<and>
    int (length (day_window (fst (can_make_request now rl)))) < requests_per_day rl"
  then obtain t ts where mw: "minute_window rl = t # ts" by (cases "minute_window rl") auto
  with a have "Min (set (t # ts)) = t"
    by (intro Min_eqI) auto
  with a mw have "t < now - one_minute" by simp
  then have "length (popleft_while_older (now - one_minute) (minute_window rl)) \<le> length ts"
    using length_popleft [of "now - one_minute" ts] by (simp add: mw)
  with a mw show "snd (can_make_request now rl)"
    by (simp add: can_make_request_def Let_def)
qed (simp_all add: can_make_request_def Let_def popleft_dropWhile
    popleft_filter [unfolded popleft_dropWhile])

theorem can_make_request_contract_witness:
  "\<not> snd (can_make_request 60000000
      \<lparr>requests_per_minute = 2, requests_per_day = 10,
       minute_window = [0, 7], day_window = [0, 7]\<rparr>) \<and>
   snd (can_make_request 60000001
      \<lparr>requests_per_minute = 2, requests_per_day = 10,
       minute_window = [0, 7], day_window = [0, 7]\<rparr>) \<and>
   minute_window (fst (can_make_request 60000001
      \<lparr>requests_per_minute = 2, requests_per_day = 10,
       minute_window = [0, 7], day_window = [0, 7]\<rparr>)) = [7]"
  using can_make_request_contract [of 60000000
      "\<lparr>requests_per_minute = 2, requests_per_day = 10,
       minute_window = [0, 7], day_window = [0, 7]\<rparr>"]
    can_make_request_contract [of 60000001
      "\<lparr>requests_per_minute = 2, requests_per_day = 10,
       minute_window = [0, 7], day_window = [0, 7]\<rparr>"]
  by (simp add: one_minute_def one_day_def)

section \<open>Properties of send_private_message\<close>

lemma rfind_None_iff: "rfind s c = None \<longleftrightarrow> c \<notin> set s"
  by (induction s) (auto split: option.splits)

lemma rfind_is_last:
  "rfind s c = Some i \<Longrightarrow> i < j \<Longrightarrow> j < length s \<Longrightarrow> s ! j \<noteq> c"
proof (induction s arbitrary: i j)
  case Nil
  then show ?case by simp
next
  case (Cons x xs)
  show ?case
  proof (cases "rfind xs c")
    case None
    then have "c \<notin> set xs" by (simp add: rfind_None_iff)
    moreover from Cons.prems obtain k where "j = Suc k" and "k < length xs"
      by (cases j) auto
    ultimately show ?thesis by auto
  next
    case (Some i')
    with Cons.prems(1) have i: "i = Suc i'" by simp
    with Cons.prems obtain k where j: "j = Suc k" and "i' < k" and "k < length xs"
      by (cases j) auto
    with Cons.IH [OF Some] have "xs ! k \<noteq> c" by blast
    with j show ?thesis by simp
  qed
qed

lemma rfind_eqI:
  assumes "i < length s" and "s ! i = c" and "\<forall>j. i < j \<and> j < length s \<longrightarrow> s ! j \<noteq> c"
  shows "rfind s c = Some i"
proof (cases "rfind s c")
  case None
  with assms(1,2) show ?thesis by (auto simp: rfind_None_iff)
next
  case (Some k)
  have "\<not> k < i" using rfind_is_last [OF Some, of i] assms(1,2) by auto
  moreover have "\<not> i < k" using rfind_Some [OF Some] assms(3) by auto
  ultimately show ?thesis using Some by simp
qed

lemma split_point_le: "split_point message \<le> max_length"
proof (cases "rfind (take max_length message) 32")
  case None
  then show ?thesis by (simp add: split_point_def)
next
  case (Some i)
  from rfind_Some [OF this] show ?thesis by (simp add: split_point_def Some)
qed

lemma split_point_no_space:
  "32 \<notin> set (take max_length message) \<Longrightarrow> split_point message = max_length"
  by (simp add: split_point_def rfind_None_iff [THEN iffD2])

lemma split_point_last_space:
  assumes "i < max_length" and "i < length message" and "message ! i = 32"
    and "\<forall>j. i < j \<and> j < max_length \<and> j < length message \<longrightarrow> message ! j \<noteq> 32"
  shows "split_point message = i"
proof -
  have "rfind (take max_length message) 32 = Some i"
    using assms by (intro rfind_eqI) auto
  then show ?thesis by (simp add: split_point_def)
qed

lemma send_empty: "send_private_message target [] = []"
  by (subst send_private_message.simps) simp

lemma send_short:
  "message \<noteq> [] \<Longrightarrow> length message \<le> max_length \<Longrightarrow>
   send_private_message target message = [Send (privmsg target message)]"
  by (subst send_private_message.simps) simp

lemma send_long:
  "max_length < length message \<Longrightarrow>
   send_private_message target message =
     Send (privmsg target (take (split_point message) message)) # Sleep 500 #
     send_private_message target (lstrip (drop (split_point message) message))"
  by (subst send_private_message.simps) auto

lemma chunks_long:
  "max_length < length message \<Longrightarrow>
   chunks message =
     (take (split_point message) message, takeWhile isspace (drop (split_point message) message)) #
     chunks (dropWhile isspace (drop (split_point message) message))"
  by (subst chunks.simps) (auto simp: lstrip_def)

lemma chunks_short:
  "message \<noteq> [] \<Longrightarrow> length message \<le> max_length \<Longrightarrow> chunks message = [(message, [])]"
  by (subst chunks.simps) simp

lemma chunks_empty_iff: "chunks message = [] \<longleftrightarrow> message = []"
  by (subst chunks.simps) simp

lemma chunks_bounds:
  "(c, w) \<in> set (chunks message) \<Longrightarrow> length c \<le> max_length \<and> (\<forall>x\<in>set w. isspace x)"
proof (induction message rule: chunks.induct)
  case (1 message)
  show ?case
  proof (cases "message = [] \<or> length message \<le> max_length")
    case True
    with "1.prems" show ?thesis by (subst (asm) chunks.simps) (auto split: if_splits)
  next
    case False
    then have long: "max_length < length message" and ne: "message \<noteq> []" by auto
    from "1.prems" have
      "(c, w) = (take (split_point message) message,
                 takeWhile isspace (drop (split_point message) message)) \<or>
       (c, w) \<in> set (chunks (lstrip (drop (split_point message) message)))"
      by (simp add: chunks_long [OF long] lstrip_def)
    then show ?thesis
    proof
      assume "(c, w) = (take (split_point message) message,
                 takeWhile isspace (drop (split_point message) message))"
      then show ?thesis
        using split_point_le [of message] by (auto dest: set_takeWhileD)
    next
      assume "(c, w) \<in> set (chunks (lstrip (drop (split_point message) message)))"
      with "1.IH" ne long show ?thesis by simp
    qed
  qed
qed

lemma chunks_concat: "concat (map (\<lambda>(c, w). c @ w) (chunks message)) = message"
proof (induction message rule: chunks.induct)
  case (1 message)
  show ?case
  proof (cases "message = [] \<or> length message \<le> max_length")
    case True
    then show ?thesis by (subst chunks.simps) auto
  next
    case False
    then have long: "max_length < length message" and ne: "message \<noteq> []" by auto
    have "concat (map (\<lambda>(c, w). c @ w) (chunks (lstrip (drop (split_point message) message)))) =
          lstrip (drop (split_point message) message)"
      using "1.IH" ne long by simp
    then show ?thesis by (simp add: chunks_long [OF long] lstrip_def)
  qed
qed

lemma sends_are_chunks:
  "filter (\<lambda>e. e \<noteq> Sleep 500) (send_private_message target message) =
   map (\<lambda>(c, w). Send (privmsg target c)) (chunks message)"
proof (induction target message rule: send_private_message.induct)
  case (1 target message)
  show ?case
  proof (cases "message = [] \<or> length message \<le> max_length")
    case True
    then show ?thesis
      by (subst send_private_message.simps, subst chunks.simps) auto
  next
    case False
    then have long: "max_length < length message" and ne: "message \<noteq> []" by auto
    have "send_private_message target message =
            Send (privmsg target (take (split_point message) message)) # Sleep 500 #
            send_private_message target (lstrip (drop (split_point message) message))"
      using False by (subst send_private_message.simps) simp
    then show ?thesis
      using "1.IH" ne long by (simp add: chunks_long [OF long] lstrip_def)
  qed
qed

lemma paced_Cons: "es \<noteq> [] \<Longrightarrow> paced (e # es) = e # Sleep 500 # paced es"
  by (cases es) simp_all

lemma sends_are_paced:
  "message \<noteq> [] \<Longrightarrow> \<not> isspace (last message) \<Longrightarrow>
   send_private_message target message =
     paced (map (\<lambda>(c, w). Send (privmsg target c)) (chunks message))"
proof (induction target message rule: send_private_message.induct)
  case (1 target message)
  show ?case
  proof (cases "length message \<le> max_length")
    case True
    with "1.prems" show ?thesis
      by (subst send_private_message.simps, subst chunks.simps) simp
  next
    case False
    then have long: "max_length < length message" by simp
    let ?rest = "drop (split_point message) message"
    have d: "?rest \<noteq> []" using long split_point_le [of message] by simp
    then have l: "last ?rest = last message" by simp
    have "\<not> (\<forall>x\<in>set ?rest. isspace x)"
      using d l "1.prems"(2) last_in_set [of ?rest] by metis
    then have ne: "lstrip ?rest \<noteq> []" by (simp add: lstrip_def)
    have "last (lstrip ?rest) = last ?rest"
      unfolding lstrip_def
      by (metis ne lstrip_def last_appendR takeWhile_dropWhile_id)
    with l "1.prems"(2) have sp: "\<not> isspace (last (lstrip ?rest))" by simp
    have ih: "send_private_message target (lstrip ?rest) =
          paced (map (\<lambda>(c, w). Send (privmsg target c)) (chunks (lstrip ?rest)))"
      using "1.IH" "1.prems"(1) False ne sp by simp
    have c: "chunks (lstrip ?rest) \<noteq> []" using ne by (simp add: chunks_empty_iff)
    have "send_private_message target message =
            Send (privmsg target (take (split_point message) message)) # Sleep 500 #
            send_private_message target (lstrip ?rest)"
      using False "1.prems"(1) by (subst send_private_message.simps) simp
    then show ?thesis
      using ih c by (simp add: chunks_long [OF long] paced_Cons flip: lstrip_def)
  qed
qed

lemma chunks_Nil: "chunks [] = []"
  by (simp add: chunks_empty_iff)

lemma send_general:
  "send_private_message target message =
     paced (map (\<lambda>(c, w). Send (privmsg target c)) (chunks message)) @
     (if chunks message \<noteq> [] \<and> snd (last (chunks message)) \<noteq> [] then [Sleep 500] else [])"
proof (induction target message rule: send_private_message.induct)
  case (1 target message)
  show ?case
  proof (cases "message = []")
    case True
    then show ?thesis by (simp add: send_empty chunks_Nil)
  next
    case ne: False
    show ?thesis
    proof (cases "length message \<le> max_length")
      case True
      with ne show ?thesis by (simp add: send_short chunks_short)
    next
      case False
      then have long: "max_length < length message" by simp
      let ?d = "drop (split_point message) message"
      let ?rest = "lstrip ?d"
      let ?c0 = "take (split_point message) message"
      let ?w0 = "takeWhile isspace ?d"
      let ?f = "\<lambda>(c, w). Send (privmsg target c)"
      have s: "send_private_message target message =
          Send (privmsg target ?c0) # Sleep 500 # send_private_message target ?rest"
        using long by (rule send_long)
      have c: "chunks message = (?c0, ?w0) # chunks ?rest"
        using chunks_long [OF long] by (simp only: lstrip_def)
      have d: "?d \<noteq> []" using long split_point_le [of message] by simp
      show ?thesis
      proof (cases "?rest = []")
        case True
        then have "\<forall>x\<in>set ?d. isspace x" by (simp add: lstrip_def)
        then have wd: "?w0 = ?d" by (simp add: takeWhile_eq_all_conv)
        have w: "?w0 \<noteq> []" unfolding wd by (rule d)
        have "send_private_message target message = [Send (privmsg target ?c0), Sleep 500]"
          unfolding s True by (simp add: send_empty)
        moreover have "chunks message = [(?c0, ?w0)]"
          unfolding c True by (simp add: chunks_Nil)
        ultimately show ?thesis using w by simp
      next
        case rest: False
        then have cr: "chunks ?rest \<noteq> []" by (simp add: chunks_empty_iff)
        have ih: "send_private_message target ?rest =
            paced (map ?f (chunks ?rest)) @
            (if chunks ?rest \<noteq> [] \<and> snd (last (chunks ?rest)) \<noteq> [] then [Sleep 500] else [])"
          using "1.IH" ne False by simp
        have p: "paced (map ?f (chunks message)) =
            Send (privmsg target ?c0) # Sleep 500 # paced (map ?f (chunks ?rest))"
          unfolding c using cr by (simp add: paced_Cons)
        have l: "last (chunks message) = last (chunks ?rest)"
          unfolding c using cr by simp
        have n: "chunks message \<noteq> []" unfolding c by simp
        show ?thesis unfolding s ih p l using n cr by simp
      qed
    qed
  qed
qed

text \<open>
  Claim C8, as amended. For every text, with the maximum length 400 of the source:
  the lines sent carry the chunks in order; every chunk has length at most
  \<open>max_length\<close>, and what is removed after it is whitespace; the chunks with the
  removed whitespace put back concatenate to the text; a text longer than \<open>max_length\<close>
  is split at the last space character (code point 32) among its first \<open>max_length\<close>
  characters, or cut at \<open>max_length\<close> when there is none, and the rest, with its leading
  whitespace stripped, is chunked in the same way; a non-empty text of length at most
  \<open>max_length\<close> is one chunk with nothing removed. The effects are the lines with one
  pacing delay between consecutive lines, and one more delay at the end exactly when
  whitespace was removed after the last chunk (the last chunk was cut off by a split
  and only whitespace remained): so for a text that does not end in whitespace no delay
  follows the last line.
\<close>

theorem send_private_message_chunking:
  "filter (\<lambda>e. e \<noteq> Sleep 500) (send_private_message target message) =
     map (\<lambda>(c, w). Send (privmsg target c)) (chunks message) \<and>
   (\<forall>(c, w)\<in>set (chunks message). length c \<le> max_length \<and> (\<forall>x\<in>set w. isspace x)) \<and>
   concat (map (\<lambda>(c, w). c @ w) (chunks message)) = message \<and>
   (max_length < length message \<longrightarrow>
      chunks message =
        (take (split_point message) message,
         takeWhile isspace (drop (split_point message) message)) #
        chunks (dropWhile isspace (drop (split_point message) message))) \<and>
   (32 \<notin> set (take max_length message) \<longrightarrow> split_point message = max_length) \<and>
   (i < max_length \<and> i < length message \<and> message ! i = 32 \<and>
    (\<forall>j. i < j \<and> j < max_length \<and> j < length message \<longrightarrow> message ! j \<noteq> 32) \<longrightarrow>
      split_point message = i) \<and>
   (message \<noteq> [] \<and> length message \<le> max_length \<longrightarrow> chunks message = [(message, [])]) \<and>
   (message \<noteq> [] \<and> \<not> isspace (last message) \<longrightarrow>
      send_private_message target message =
        paced (map (\<lambda>(c, w). Send (privmsg target c)) (chunks message))) \<and>
   send_private_message target message =
     paced (map (\<lambda>(c, w). Send (privmsg target c)) (chunks message)) @
     (if chunks message \<noteq> [] \<and> snd (last (chunks message)) \<noteq> [] then [Sleep 500] else [])"
proof (intro conjI impI)
  show "\<forall>(c, w)\<in>set (chunks message). length c \<le> max_length \<and> (\<forall>x\<in>set w. isspace x)"
    using chunks_bounds by blast
next
  assume "i < max_length \<and> i < length message \<and> message ! i = 32 \<and>
    (\<forall>j. i < j \<and> j < max_length \<and> j < length message \<longrightarrow> message ! j \<noteq> 32)"
  then show "split_point message = i" by (intro split_point_last_space) auto
next
  show "send_private_message target message =
     paced (map (\<lambda>(c, w). Send (privmsg target c)) (chunks message)) @
     (if chunks message \<noteq> [] \<and> snd (last (chunks message)) \<noteq> [] then [Sleep 500] else [])"
    by (rule send_general)
qed (simp_all add: sends_are_chunks chunks_concat chunks_long split_point_no_space
    chunks_short sends_are_paced)

theorem send_private_message_chunking_witness:
  "split_point (replicate 399 97 @ [32, 9] @ replicate 5 98) = 399 \<and>
   chunks (replicate 399 97 @ [32, 9] @ replicate 5 98) =
     [(replicate 399 97, [32, 9]), (replicate 5 98, [])] \<and>
   send_private_message (py ''bob'') (replicate 399 97 @ [32, 9] @ replicate 5 98) =
     [Send (privmsg (py ''bob'') (replicate 399 97)), Sleep 500,
      Send (privmsg (py ''bob'') (replicate 5 98))] \<and>
   split_point (replicate 401 97) = max_length"
proof -
  let ?m = "replicate 399 97 @ [32, 9] @ replicate 5 (98 :: nat)"
  note long = send_private_message_chunking [of "py ''bob''" ?m 399]
  note short = send_private_message_chunking [of "py ''bob''" "replicate 5 98" 0]
  note cut = send_private_message_chunking [of "py ''bob''" "replicate 401 97" 0]
  have len: "max_length < length ?m" by (simp add: max_length_def)
  have sp: "split_point ?m = 399"
  proof -
    have "399 < max_length \<and> 399 < length ?m \<and> ?m ! 399 = 32 \<and>
      (\<forall>j. 399 < j \<and> j < max_length \<and> j < length ?m \<longrightarrow> ?m ! j \<noteq> 32)"
      by (simp add: max_length_def nth_append)
    with long show ?thesis by blast
  qed
  have rest: "dropWhile isspace (drop 399 ?m) = replicate 5 98"
    and ws: "takeWhile isspace (drop 399 ?m) = [32, 9]"
    by (simp_all add: isspace_def)
  have c5: "chunks (replicate 5 98) = [(replicate 5 98, [])]"
    using short by (simp add: max_length_def)
  from long len have "chunks ?m =
      (take (split_point ?m) ?m, takeWhile isspace (drop (split_point ?m) ?m)) #
      chunks (dropWhile isspace (drop (split_point ?m) ?m))"
    by blast
  then have "chunks ?m =
      (take 399 ?m, takeWhile isspace (drop 399 ?m)) # chunks (dropWhile isspace (drop 399 ?m))"
    by (simp only: sp)
  then have "chunks ?m = (take 399 ?m, [32, 9]) # [(replicate 5 98, [])]"
    by (simp only: rest ws c5)
  then have ch: "chunks ?m = [(replicate 399 97, [32, 9]), (replicate 5 98, [])]"
    by simp
  have "\<not> isspace (last ?m)" by (simp add: isspace_def)
  with long have "send_private_message (py ''bob'') ?m =
      paced (map (\<lambda>(c, w). Send (privmsg (py ''bob'') c)) (chunks ?m))" by simp
  then have snd: "send_private_message (py ''bob'') ?m =
     [Send (privmsg (py ''bob'') (replicate 399 97)), Sleep 500,
      Send (privmsg (py ''bob'') (replicate 5 98))]"
    unfolding ch by simp
  have "32 \<notin> set (take max_length (replicate 401 (97 :: nat)))" by simp
  with cut have "split_point (replicate 401 97) = max_length" by blast
  with sp ch snd show ?thesis by simp
qed

text \<open>
  Claim C8, as stated, fails on two inputs. A tab is whitespace, but only the space
  character is a split point: a text with a tab at index 2 and no space is cut at 400
  and not at the tab. And the last chunk is followed by a pacing delay when what
  remains after it is whitespace only (here one space after 400 letters).
\<close>

theorem send_private_message_counterexample:
  "isspace 9 \<and>
   send_private_message (py ''bob'') (py ''ab'' @ [9] @ replicate 400 97) =
     [Send (privmsg (py ''bob'') (py ''ab'' @ [9] @ replicate 397 97)), Sleep 500,
      Send (privmsg (py ''bob'') (replicate 3 97))] \<and>
   send_private_message (py ''bob'') (replicate 400 97 @ [32]) =
     [Send (privmsg (py ''bob'') (replicate 400 97)), Sleep 500]"
proof (intro conjI)
  show "isspace 9" by (simp add: isspace_def)
next
  let ?m = "py ''ab'' @ [9] @ replicate 400 (97 :: nat)"
  have sp: "split_point ?m = 400"
    by (simp add: split_point_no_space max_length_def py_def)
  have "send_private_message (py ''bob'') ?m =
      Send (privmsg (py ''bob'') (take 400 ?m)) # Sleep 500 #
      send_private_message (py ''bob'') (lstrip (drop 400 ?m))"
    using send_long [of ?m "py ''bob''"] unfolding sp by (simp add: max_length_def py_def)
  moreover have "take 400 ?m = py ''ab'' @ [9] @ replicate 397 97"
    by (simp add: py_def)
  moreover have "lstrip (drop 400 ?m) = replicate 3 97"
    by (simp add: py_def lstrip_def isspace_def)
  moreover have "send_private_message (py ''bob'') (replicate 3 97) =
      [Send (privmsg (py ''bob'') (replicate 3 97))]"
    by (simp add: send_short max_length_def)
  ultimately show "send_private_message (py ''bob'') ?m =
     [Send (privmsg (py ''bob'') (py ''ab'' @ [9] @ replicate 397 97)), Sleep 500,
      Send (privmsg (py ''bob'') (replicate 3 97))]"
    by (simp only:)
next
  let ?m = "replicate 400 (97 :: nat) @ [32]"
  have sp: "split_point ?m = 400"
    by (simp add: split_point_no_space max_length_def)
  have "send_private_message (py ''bob'') ?m =
      Send (privmsg (py ''bob'') (take 400 ?m)) # Sleep 500 #
      send_private_message (py ''bob'') (lstrip (drop 400 ?m))"
    using send_long [of ?m "py ''bob''"] unfolding sp by (simp add: max_length_def)
  moreover have "take 400 ?m = replicate 400 97" by simp
  moreover have "lstrip (drop 400 ?m) = []" by (simp add: lstrip_def isspace_def)
  moreover have "send_private_message (py ''bob'') [] = []"
    by (simp add: send_empty)
  ultimately show "send_private_message (py ''bob'') ?m =
     [Send (privmsg (py ''bob'') (replicate 400 97)), Sleep 500]"
    by (simp only:)
qed

section \<open>Properties of handle_private_message\<close>

lemma send_rate_limit_notice:
  "send_private_message sender rate_limit_notice = [Send (privmsg sender rate_limit_notice)]"
  by (rule send_short) (simp_all add: rate_limit_notice_def py_def max_length_def)

lemma send_usage_notice:
  "send_private_message sender usage_notice = [Send (privmsg sender usage_notice)]"
  by (rule send_short) (simp_all add: usage_notice_def py_def max_length_def)

lemma send_no_results_notice:
  "send_private_message sender no_results_notice = [Send (privmsg sender no_results_notice)]"
  by (rule send_short) (simp_all add: no_results_notice_def py_def max_length_def)


lemma send_help_msg:
  "send_private_message sender help_msg = [Send (privmsg sender help_msg)]"
  by (rule send_short) (simp_all add: help_msg_def py_def max_length_def)

lemma send_private_message_output:
  "list_all is_output (send_private_message target message)"
proof (induction target message rule: send_private_message.induct)
  case (1 target message)
  show ?case
  proof (cases "message = [] \<or> length message \<le> max_length")
    case True
    then show ?thesis by (subst send_private_message.simps) auto
  next
    case False
    with "1.IH" show ?thesis by (subst send_private_message.simps) simp
  qed
qed

lemma send_results_output: "list_all is_output (send_results sender i rs)"
  by (induction rs arbitrary: i) (auto simp: send_private_message_output split: sum.splits)

lemma output_no_record: "list_all is_output es \<Longrightarrow> Record \<notin> set es \<and> (\<forall>q. Request q \<notin> set es)"
  by (induction es) auto

lemma output_count_record: "list_all is_output es \<Longrightarrow> count_list es Record = 0"
  by (induction es) auto

lemma can_make_request_capacities:
  "requests_per_minute (fst (can_make_request now rl)) = requests_per_minute rl \<and>
   requests_per_day (fst (can_make_request now rl)) = requests_per_day rl"
  by (simp add: can_make_request_def Let_def)

lemma can_make_request_windows:
  "minute_window (fst (can_make_request now rl)) =
     dropWhile (\<lambda>t. t < now - one_minute) (minute_window rl) \<and>
   day_window (fst (can_make_request now rl)) =
     dropWhile (\<lambda>t. t < now - one_day) (day_window rl)"
  by (simp add: can_make_request_def Let_def popleft_dropWhile)

lemma dropWhile_none: "\<forall>x\<in>set xs. \<not> P x \<Longrightarrow> dropWhile P xs = xs"
  by (cases xs) auto

lemma can_make_request_unchanged:
  assumes "\<forall>t\<in>set (minute_window rl). now - one_minute \<le> t"
    and "\<forall>t\<in>set (day_window rl). now - one_day \<le> t"
  shows "fst (can_make_request now rl) = rl"
proof -
  have "dropWhile (\<lambda>t. t < now - one_minute) (minute_window rl) = minute_window rl"
    using assms(1) by (intro dropWhile_none) auto
  moreover have "dropWhile (\<lambda>t. t < now - one_day) (day_window rl) = day_window rl"
    using assms(2) by (intro dropWhile_none) auto
  ultimately show ?thesis
    by (simp add: can_make_request_def Let_def popleft_dropWhile)
qed

lemma handle_search_allowed:
  assumes "startswith message (py ''!search '')" and "strip (drop 8 message) \<noteq> []"
    and "snd (can_make_request (now_check e) rl)"
  shows "handle_private_message e rl sender message =
    (add_request (now_record e) (fst (can_make_request (now_check e) rl)),
     snd (search_hearch (strip (drop 8 message)) (outcome e)) @ Record #
     reply_results sender (fst (search_hearch (strip (drop 8 message)) (outcome e))))"
  using assms by (simp add: handle_private_message_def Let_def split_beta)

lemma handle_search_denied:
  assumes "startswith message (py ''!search '')"
    and "\<not> snd (can_make_request (now_check e) rl)"
  shows "handle_private_message e rl sender message =
    (fst (can_make_request (now_check e) rl), [Send (privmsg sender rate_limit_notice)])"
  using assms by (simp add: handle_private_message_def Let_def split_beta send_rate_limit_notice)

lemma handle_search_empty:
  assumes "startswith message (py ''!search '')" and "strip (drop 8 message) = []"
    and "snd (can_make_request (now_check e) rl)"
  shows "handle_private_message e rl sender message =
    (fst (can_make_request (now_check e) rl), [Send (privmsg sender usage_notice)])"
  using assms by (simp add: handle_private_message_def Let_def split_beta send_usage_notice)

lemma handle_other:
  assumes "\<not> startswith message (py ''!search '')"
  shows "handle_private_message e rl sender message =
    (rl, if message = py ''!help'' then [Send (privmsg sender help_msg)] else [])"
  using assms by (simp add: handle_private_message_def send_help_msg)

lemma reply_results_output: "list_all is_output (reply_results sender results)"
  by (simp add: reply_results_def send_private_message_output send_results_output)

lemma search_hearch_request:
  "snd (search_hearch query oc) = (if oc = PrintRaised then [] else [Request query])"
  by (cases oc) simp_all

lemma count_record_search: "count_list (snd (search_hearch query oc)) Record = 0"
  by (simp add: search_hearch_request)

text \<open>
  Claim C3, as amended. \<open>add_request\<close> is called only for a search command with non-empty
  trailing text for which \<open>can_make_request\<close> returned true, and then exactly once. The
  record comes after \<open>search_hearch\<close> has returned: the effects are those of the search
  (the request to the service, unless a debug print raised before it), then the record,
  then the reply, which only sends and sleeps. For every other message nothing is
  recorded and no search is made: the limiter is as it was, or as \<open>can_make_request\<close> has
  pruned it.
\<close>

theorem record_only_after_gated_search:
  "(startswith message (py ''!search '') \<and> strip (drop 8 message) \<noteq> [] \<and>
    snd (can_make_request (now_check e) rl) \<longrightarrow>
      fst (handle_private_message e rl sender message) =
        add_request (now_record e) (fst (can_make_request (now_check e) rl)) \<and>
      snd (handle_private_message e rl sender message) =
        snd (search_hearch (strip (drop 8 message)) (outcome e)) @ Record #
        reply_results sender (fst (search_hearch (strip (drop 8 message)) (outcome e))) \<and>
      snd (search_hearch (strip (drop 8 message)) (outcome e)) =
        (if outcome e = PrintRaised then [] else [Request (strip (drop 8 message))]) \<and>
      list_all is_output
        (reply_results sender (fst (search_hearch (strip (drop 8 message)) (outcome e)))) \<and>
      count_list (snd (handle_private_message e rl sender message)) Record = 1) \<and>
   (\<not> (startswith message (py ''!search '') \<and> strip (drop 8 message) \<noteq> [] \<and>
       snd (can_make_request (now_check e) rl)) \<longrightarrow>
      list_all is_output (snd (handle_private_message e rl sender message)) \<and>
      count_list (snd (handle_private_message e rl sender message)) Record = 0 \<and>
      (fst (handle_private_message e rl sender message) = rl \<or>
       fst (handle_private_message e rl sender message) =
         fst (can_make_request (now_check e) rl)))"
proof (intro conjI impI)
  assume a: "startswith message (py ''!search '') \<and> strip (drop 8 message) \<noteq> [] \<and>
    snd (can_make_request (now_check e) rl)"
  note h = handle_search_allowed [of message e rl sender]
  show "fst (handle_private_message e rl sender message) =
        add_request (now_record e) (fst (can_make_request (now_check e) rl))"
    using a by (simp add: h)
  show "snd (handle_private_message e rl sender message) =
        snd (search_hearch (strip (drop 8 message)) (outcome e)) @ Record #
        reply_results sender (fst (search_hearch (strip (drop 8 message)) (outcome e)))"
    using a by (simp add: h)
  show "snd (search_hearch (strip (drop 8 message)) (outcome e)) =
        (if outcome e = PrintRaised then [] else [Request (strip (drop 8 message))])"
    by (rule search_hearch_request)
  show "list_all is_output
        (reply_results sender (fst (search_hearch (strip (drop 8 message)) (outcome e))))"
    by (rule reply_results_output)
  show "count_list (snd (handle_private_message e rl sender message)) Record = 1"
    using a output_count_record [OF reply_results_output
        [of sender "fst (search_hearch (strip (drop 8 message)) (outcome e))"]]
    by (simp add: h count_record_search)
next
  assume n: "\<not> (startswith message (py ''!search '') \<and> strip (drop 8 message) \<noteq> [] \<and>
       snd (can_make_request (now_check e) rl))"
  consider (other) "\<not> startswith message (py ''!search '')"
    | (denied) "startswith message (py ''!search '')" "\<not> snd (can_make_request (now_check e) rl)"
    | (empty) "startswith message (py ''!search '')" "strip (drop 8 message) = []"
        "snd (can_make_request (now_check e) rl)"
    using n by blast
  then have "list_all is_output (snd (handle_private_message e rl sender message)) \<and>
      count_list (snd (handle_private_message e rl sender message)) Record = 0 \<and>
      (fst (handle_private_message e rl sender message) = rl \<or>
       fst (handle_private_message e rl sender message) =
         fst (can_make_request (now_check e) rl))"
  proof cases
    case other
    then show ?thesis by (simp add: handle_other)
  next
    case denied
    then show ?thesis by (simp add: handle_search_denied)
  next
    case empty
    then show ?thesis by (simp add: handle_search_empty)
  qed
  then show "list_all is_output (snd (handle_private_message e rl sender message))"
    and "count_list (snd (handle_private_message e rl sender message)) Record = 0"
    and "fst (handle_private_message e rl sender message) = rl \<or>
       fst (handle_private_message e rl sender message) =
         fst (can_make_request (now_check e) rl)"
    by blast+
qed

lemmas eval_text =
  startswith_def py_def strip_def lstrip_def rstrip_def isspace_def

lemmas eval_rate =
  can_make_request_def add_request_def RateLimiter_init_def Let_def one_minute_def one_day_def

lemma reply_no_results: "reply_results sender (ResultList []) = [Send (privmsg sender no_results_notice)]"
  by (simp add: reply_results_def send_no_results_notice)

theorem record_only_after_gated_search_witness:
  "fst (handle_private_message \<lparr>now_check = 0, outcome = RequestRaised, now_record = 5\<rparr>
     (RateLimiter_init 5 500) (py ''alice'') (py ''!search x'')) =
     \<lparr>requests_per_minute = 5, requests_per_day = 500, minute_window = [5], day_window = [5]\<rparr> \<and>
   snd (handle_private_message \<lparr>now_check = 0, outcome = PrintRaised, now_record = 5\<rparr>
     (RateLimiter_init 5 500) (py ''alice'') (py ''!search x'')) =
     [Record, Send (privmsg (py ''alice'') no_results_notice)] \<and>
   count_list (snd (handle_private_message \<lparr>now_check = 0, outcome = RequestRaised, now_record = 5\<rparr>
     (RateLimiter_init 5 500) (py ''alice'') (py ''!search x''))) Record = 1 \<and>
   count_list (snd (handle_private_message \<lparr>now_check = 0, outcome = RequestRaised, now_record = 5\<rparr>
     (RateLimiter_init 5 500) (py ''alice'') (py ''hello''))) Record = 0"
proof -
  let ?e = "\<lparr>now_check = 0, outcome = RequestRaised, now_record = 5\<rparr>"
  let ?p = "\<lparr>now_check = 0, outcome = PrintRaised, now_record = 5\<rparr>"
  let ?rl = "RateLimiter_init 5 500"
  let ?m = "py ''!search x''"
  have q: "strip (drop 8 ?m) = py ''x''" by (simp add: eval_text)
  have h: "startswith ?m (py ''!search '') \<and> strip (drop 8 ?m) \<noteq> [] \<and>
    snd (can_make_request (now_check ?e) ?rl)"
    unfolding q by (simp add: eval_text eval_rate)
  have hp: "startswith ?m (py ''!search '') \<and> strip (drop 8 ?m) \<noteq> [] \<and>
    snd (can_make_request (now_check ?p) ?rl)"
    unfolding q by (simp add: eval_text eval_rate)
  have n: "\<not> (startswith (py ''hello'') (py ''!search '') \<and>
    strip (drop 8 (py ''hello'')) \<noteq> [] \<and> snd (can_make_request (now_check ?e) ?rl))"
    by (simp add: eval_text)
  have r: "add_request (now_record ?e) (fst (can_make_request (now_check ?e) ?rl)) =
    \<lparr>requests_per_minute = 5, requests_per_day = 500, minute_window = [5], day_window = [5]\<rparr>"
    by (simp add: eval_rate)
  from record_only_after_gated_search [of ?m ?e ?rl "py ''alice''"] h
  have "fst (handle_private_message ?e ?rl (py ''alice'') ?m) =
        add_request (now_record ?e) (fst (can_make_request (now_check ?e) ?rl)) \<and>
      count_list (snd (handle_private_message ?e ?rl (py ''alice'') ?m)) Record = 1"
    by blast
  moreover from record_only_after_gated_search [of ?m ?p ?rl "py ''alice''"] hp
  have "snd (handle_private_message ?p ?rl (py ''alice'') ?m) =
        snd (search_hearch (strip (drop 8 ?m)) (outcome ?p)) @ Record #
        reply_results (py ''alice'') (fst (search_hearch (strip (drop 8 ?m)) (outcome ?p)))"
    by blast
  then have "snd (handle_private_message ?p ?rl (py ''alice'') ?m) =
     [Record, Send (privmsg (py ''alice'') no_results_notice)]"
    by (simp add: reply_no_results)
  moreover from record_only_after_gated_search [of "py ''hello''" ?e ?rl "py ''alice''"] n
  have "count_list (snd (handle_private_message ?e ?rl (py ''alice'') (py ''hello''))) Record = 0"
    by blast
  ultimately show ?thesis unfolding q r by blast
qed

text \<open>
  Claim C3, as stated, has the record before the search. The source calls
  \<^verbatim>\<open>search_hearch\<close> first (line 274) and \<^verbatim>\<open>add_request\<close> after it (line 275).
\<close>

theorem record_before_search_counterexample:
  "snd (handle_private_message \<lparr>now_check = 0, outcome = RequestRaised, now_record = 5\<rparr>
     (RateLimiter_init 5 500) (py ''alice'') (py ''!search x'')) =
   [Request (py ''x''), Record, Send (privmsg (py ''alice'') no_results_notice)]"
proof -
  let ?e = "\<lparr>now_check = 0, outcome = RequestRaised, now_record = 5\<rparr>"
  let ?m = "py ''!search x''"
  have q: "strip (drop 8 ?m) = py ''x''" by (simp add: eval_text)
  have "startswith ?m (py ''!search '')" by (simp add: eval_text)
  moreover have "strip (drop 8 ?m) \<noteq> []" unfolding q by (simp add: py_def)
  moreover have "snd (can_make_request (now_check ?e) (RateLimiter_init 5 500))"
    by (simp add: eval_rate)
  ultimately have "handle_private_message ?e (RateLimiter_init 5 500) (py ''alice'') ?m =
    (add_request (now_record ?e) (fst (can_make_request (now_check ?e) (RateLimiter_init 5 500))),
     snd (search_hearch (strip (drop 8 ?m)) (outcome ?e)) @ Record #
     reply_results (py ''alice'') (fst (search_hearch (strip (drop 8 ?m)) (outcome ?e))))"
    by (rule handle_search_allowed)
  then show ?thesis unfolding q by (simp add: reply_no_results)
qed

text \<open>
  Claim C4, as amended. For a search command with non-empty query received while
  \<open>can_make_request\<close> returns false, the effects are exactly one line, the rate-limit
  notice to the sender; no search is made and nothing is recorded. The limiter is the one
  that \<open>can_make_request\<close> leaves: the capacities are unchanged and each window has lost
  the expired timestamps at its head, so the windows are unchanged when nothing in them
  has expired.
\<close>

theorem rate_limited_search:
  "startswith message (py ''!search '') \<and> strip (drop 8 message) \<noteq> [] \<and>
   \<not> snd (can_make_request (now_check e) rl) \<longrightarrow>
     snd (handle_private_message e rl sender message) = [Send (privmsg sender rate_limit_notice)] \<and>
     fst (handle_private_message e rl sender message) = fst (can_make_request (now_check e) rl) \<and>
     requests_per_minute (fst (handle_private_message e rl sender message)) = requests_per_minute rl \<and>
     requests_per_day (fst (handle_private_message e rl sender message)) = requests_per_day rl \<and>
     minute_window (fst (handle_private_message e rl sender message)) =
       dropWhile (\<lambda>t. t < now_check e - one_minute) (minute_window rl) \<and>
     day_window (fst (handle_private_message e rl sender message)) =
       dropWhile (\<lambda>t. t < now_check e - one_day) (day_window rl) \<and>
     ((\<forall>t\<in>set (minute_window rl). now_check e - one_minute \<le> t) \<and>
      (\<forall>t\<in>set (day_window rl). now_check e - one_day \<le> t) \<longrightarrow>
        fst (handle_private_message e rl sender message) = rl)"
proof (intro impI)
  assume a: "startswith message (py ''!search '') \<and> strip (drop 8 message) \<noteq> [] \<and>
   \<not> snd (can_make_request (now_check e) rl)"
  then have h: "handle_private_message e rl sender message =
    (fst (can_make_request (now_check e) rl), [Send (privmsg sender rate_limit_notice)])"
    by (simp add: handle_search_denied)
  show "snd (handle_private_message e rl sender message) = [Send (privmsg sender rate_limit_notice)] \<and>
     fst (handle_private_message e rl sender message) = fst (can_make_request (now_check e) rl) \<and>
     requests_per_minute (fst (handle_private_message e rl sender message)) = requests_per_minute rl \<and>
     requests_per_day (fst (handle_private_message e rl sender message)) = requests_per_day rl \<and>
     minute_window (fst (handle_private_message e rl sender message)) =
       dropWhile (\<lambda>t. t < now_check e - one_minute) (minute_window rl) \<and>
     day_window (fst (handle_private_message e rl sender message)) =
       dropWhile (\<lambda>t. t < now_check e - one_day) (day_window rl) \<and>
     ((\<forall>t\<in>set (minute_window rl). now_check e - one_minute \<le> t) \<and>
      (\<forall>t\<in>set (day_window rl). now_check e - one_day \<le> t) \<longrightarrow>
        fst (handle_private_message e rl sender message) = rl)"
    unfolding h
    by (simp add: can_make_request_capacities can_make_request_windows
        can_make_request_unchanged)
qed

theorem rate_limited_search_witness:
  "snd (handle_private_message \<lparr>now_check = 9, outcome = RequestRaised, now_record = 9\<rparr>
     \<lparr>requests_per_minute = 1, requests_per_day = 5, minute_window = [7], day_window = [7]\<rparr>
     (py ''alice'') (py ''!search x'')) = [Send (privmsg (py ''alice'') rate_limit_notice)] \<and>
   fst (handle_private_message \<lparr>now_check = 9, outcome = RequestRaised, now_record = 9\<rparr>
     \<lparr>requests_per_minute = 1, requests_per_day = 5, minute_window = [7], day_window = [7]\<rparr>
     (py ''alice'') (py ''!search x'')) =
     \<lparr>requests_per_minute = 1, requests_per_day = 5, minute_window = [7], day_window = [7]\<rparr>"
proof -
  let ?e = "\<lparr>now_check = 9, outcome = RequestRaised, now_record = 9\<rparr>"
  let ?rl = "\<lparr>requests_per_minute = 1, requests_per_day = 5,
    minute_window = [7], day_window = [7]\<rparr>"
  let ?m = "py ''!search x''"
  have q: "strip (drop 8 ?m) = py ''x''" by (simp add: eval_text)
  have h: "startswith ?m (py ''!search '') \<and> strip (drop 8 ?m) \<noteq> [] \<and>
    \<not> snd (can_make_request (now_check ?e) ?rl)"
    unfolding q by (simp add: eval_text eval_rate)
  have f: "(\<forall>t\<in>set (minute_window ?rl). now_check ?e - one_minute \<le> t) \<and>
      (\<forall>t\<in>set (day_window ?rl). now_check ?e - one_day \<le> t)"
    by (simp add: one_minute_def one_day_def)
  from rate_limited_search [of ?m ?e ?rl "py ''alice''"] h f show ?thesis by blast
qed

text \<open>
  Claim C4, as stated, has the windows unchanged. \<open>can_make_request\<close> prunes them before
  it answers: after one request at time 0 and one ten microseconds before the end of the
  day, a search just after the end of the day is refused (the minute window is full) and
  the timestamp 0 has left the day window.
\<close>

theorem rate_limited_windows_counterexample:
  "day_window (run_calls (RateLimiter_init 1 5)
     [CanMakeRequest 0, AddRequest 0, CanMakeRequest 86399999990, AddRequest 86399999990]) =
     [0, 86399999990] \<and>
   snd (handle_private_message
     \<lparr>now_check = 86400000001, outcome = RequestRaised, now_record = 86400000001\<rparr>
     (run_calls (RateLimiter_init 1 5)
       [CanMakeRequest 0, AddRequest 0, CanMakeRequest 86399999990, AddRequest 86399999990])
     (py ''alice'') (py ''!search x'')) = [Send (privmsg (py ''alice'') rate_limit_notice)] \<and>
   day_window (fst (handle_private_message
     \<lparr>now_check = 86400000001, outcome = RequestRaised, now_record = 86400000001\<rparr>
     (run_calls (RateLimiter_init 1 5)
       [CanMakeRequest 0, AddRequest 0, CanMakeRequest 86399999990, AddRequest 86399999990])
     (py ''alice'') (py ''!search x''))) = [86399999990]"
proof -
  let ?e = "\<lparr>now_check = 86400000001, outcome = RequestRaised, now_record = 86400000001\<rparr>"
  let ?rl = "\<lparr>requests_per_minute = 1, requests_per_day = 5,
    minute_window = [86399999990], day_window = [0, 86399999990]\<rparr>"
  have r: "run_calls (RateLimiter_init 1 5)
     [CanMakeRequest 0, AddRequest 0, CanMakeRequest 86399999990, AddRequest 86399999990] = ?rl"
    by (simp add: eval_rate)
  have "startswith (py ''!search x'') (py ''!search '')" by (simp add: eval_text)
  moreover have "\<not> snd (can_make_request (now_check ?e) ?rl)" by (simp add: eval_rate)
  ultimately have "handle_private_message ?e ?rl (py ''alice'') (py ''!search x'') =
    (fst (can_make_request (now_check ?e) ?rl), [Send (privmsg (py ''alice'') rate_limit_notice)])"
    by (rule handle_search_denied)
  then show ?thesis unfolding r by (simp add: eval_rate)
qed

lemma handle_empty_query:
  "startswith message (py ''!search '') \<and> strip (drop 8 message) = [] \<longrightarrow>
     handle_private_message e rl sender message =
       (fst (can_make_request (now_check e) rl),
        [Send (privmsg sender
           (if snd (can_make_request (now_check e) rl) then usage_notice
            else rate_limit_notice))])"
  by (simp add: handle_search_denied handle_search_empty)








section \<open>Properties of the line framing\<close>













lemma feed_Some:
  "utf8_decode data = Some text \<Longrightarrow>
   feed buffer data =
     (last (py_split crlf (buffer @ text)), butlast (py_split crlf (buffer @ text)))"
  by (simp add: feed_def Let_def)





lemma split_crlf_example:
  "py_split crlf (py ''PING x'' @ crlf @ py ''NOTICE y'' @ crlf @ py ''PRIV'') =
   [py ''PING x'', py ''NOTICE y'', py ''PRIV'']"
  by (simp add: crlf_def py_def)



section \<open>Properties of the dispatch\<close>

lemma split_once_without: "\<not> contains s sep \<Longrightarrow> split_once sep s = [s]"
  by (induction s) auto

lemma dispatch_privmsg_no_colon:
  assumes "contains line (py ''PRIVMSG'')"
    and "split_once (py ''PRIVMSG '') line = [p0, msg_parts]"
    and "\<not> contains msg_parts (py '':'')"
  shows "dispatch_privmsg e rl line = (rl, [], Some ValueError)"
proof -
  have "split_once (py '':'') msg_parts = [msg_parts]"
    using assms(3) by (rule split_once_without)
  with assms(1,2) show ?thesis by (simp add: dispatch_privmsg_def Let_def)
qed

lemma dispatch_privmsg_private:
  assumes "contains line (py ''PRIVMSG'')"
    and "split_once (py ''PRIVMSG '') line = [p0, msg_parts]"
    and "split_once (py '':'') msg_parts = [target0, message0]"
    and "strip target0 = nickname"
  shows "dispatch_privmsg e rl line =
    (fst (handle_private_message e rl (drop 1 (hd (py_split (py ''!'') line))) (strip message0)),
     snd (handle_private_message e rl (drop 1 (hd (py_split (py ''!'') line))) (strip message0)),
     None)"
  using assms by (simp add: dispatch_privmsg_def Let_def split_beta)

lemma dispatch_lines_raise:
  "dispatch_line e rl line = (rl1, effs, Some ex) \<Longrightarrow>
   dispatch_lines rl ((e, line) # rest) = (rl1, effs, Some ex)"
  by simp

lemma dispatch_bad_line:
  "dispatch_line e rl (py '':alice!u@h PRIVMSG SearchBot hello'') = (rl, [], Some ValueError)"
proof -
  let ?bad = "py '':alice!u@h PRIVMSG SearchBot hello''"
  have "contains ?bad (py ''PRIVMSG'')" by (simp add: py_def)
  moreover have "split_once (py ''PRIVMSG '') ?bad = [py '':alice!u@h '', py ''SearchBot hello'']"
    by (simp add: py_def)
  moreover have "\<not> contains (py ''SearchBot hello'') (py '':'')" by (simp add: py_def)
  ultimately have "dispatch_privmsg e rl ?bad = (rl, [], Some ValueError)"
    by (rule dispatch_privmsg_no_colon)
  moreover have "ping_reply ?bad = Inr []" by (simp add: ping_reply_def startswith_def py_def)
  ultimately show ?thesis by (simp add: dispatch_line_def)
qed

lemma dispatch_help_line:
  "dispatch_line e rl (py '':bob!u@h PRIVMSG SearchBot :!help'') =
   (rl, [Send (privmsg (py ''bob'') help_msg)], None)"
proof -
  let ?good = "py '':bob!u@h PRIVMSG SearchBot :!help''"
  have "contains ?good (py ''PRIVMSG'')" by (simp add: py_def)
  moreover have "split_once (py ''PRIVMSG '') ?good = [py '':bob!u@h '', py ''SearchBot :!help'']"
    by (simp add: py_def)
  moreover have "split_once (py '':'') (py ''SearchBot :!help'') = [py ''SearchBot '', py ''!help'']"
    by (simp add: py_def)
  moreover have "strip (py ''SearchBot '') = nickname"
    by (simp add: nickname_def eval_text)
  ultimately have "dispatch_privmsg e rl ?good =
    (fst (handle_private_message e rl (drop 1 (hd (py_split (py ''!'') ?good))) (strip (py ''!help''))),
     snd (handle_private_message e rl (drop 1 (hd (py_split (py ''!'') ?good))) (strip (py ''!help''))),
     None)"
    by (rule dispatch_privmsg_private)
  moreover have "drop 1 (hd (py_split (py ''!'') ?good)) = py ''bob''" by (simp add: py_def)
  moreover have "strip (py ''!help'') = py ''!help''" by (simp add: eval_text)
  moreover have "\<not> startswith (py ''!help'') (py ''!search '')" by (simp add: eval_text)
  ultimately have "dispatch_privmsg e rl ?good = (rl, [Send (privmsg (py ''bob'') help_msg)], None)"
    by (simp add: handle_other)
  moreover have "ping_reply ?good = Inr []" by (simp add: ping_reply_def startswith_def py_def)
  ultimately show ?thesis by (simp add: dispatch_line_def)
qed

lemma dispatch_ping_without_argument:
  "dispatch_line e rl (py ''PING'') = (rl, [], Some IndexError)"
proof -
  have "split_whitespace (py ''PING'') = [py ''PING'']"
    by (simp add: split_whitespace_def py_def isspace_def)
  then have "ping_reply (py ''PING'') = Inl IndexError"
    by (simp add: ping_reply_def startswith_def)
  then show ?thesis by (simp add: dispatch_line_def)
qed

lemma utf8_decode_ascii: "\<forall>b\<in>set bs. b < 0x80 \<Longrightarrow> utf8_decode bs = Some (map unat bs)"
  by (induction bs) auto

lemma run_step_raise:
  assumes "feed buffer data = (buffer', lines)"
    and "dispatch_lines rl (map (\<lambda>i. (envs i, lines ! i)) [0..<length lines]) =
           (rl', effs, Some ex)"
  shows "run_step envs buffer rl data = ([], rl', effs @ [Sleep 30000], Abandoned ex)"
  using assms by (simp add: run_step_def)

lemma malformed_line_run_step:
  "run_step (\<lambda>i. \<lparr>now_check = 0, outcome = RequestRaised, now_record = 0\<rparr>) []
     (RateLimiter_init 5 500)
     (map of_char '':alice!u@h PRIVMSG SearchBot hello'' @ [0x0D, 0x0A] @
      map of_char '':bob!u@h PRIVMSG SearchBot :!help'' @ [0x0D, 0x0A]) =
   ([], RateLimiter_init 5 500, [Sleep 30000], Abandoned ValueError)"
proof -
  let ?e = "\<lparr>now_check = 0, outcome = RequestRaised, now_record = 0\<rparr>"
  let ?rl = "RateLimiter_init 5 500"
  let ?bad = "py '':alice!u@h PRIVMSG SearchBot hello''"
  let ?good = "py '':bob!u@h PRIVMSG SearchBot :!help''"
  let ?data = "map of_char '':alice!u@h PRIVMSG SearchBot hello'' @ [0x0D, 0x0A] @
      map of_char '':bob!u@h PRIVMSG SearchBot :!help'' @ [0x0D, 0x0A :: byte]"
  have "\<forall>b\<in>set ?data. b < 0x80" by simp
  then have "utf8_decode ?data = Some (map unat ?data)" by (rule utf8_decode_ascii)
  moreover have "map unat ?data = ?bad @ crlf @ ?good @ crlf"
    by (simp add: py_def crlf_def)
  ultimately have "utf8_decode ?data = Some (?bad @ crlf @ ?good @ crlf)" by simp
  then have "feed [] ?data =
    (last (py_split crlf ([] @ ?bad @ crlf @ ?good @ crlf)),
     butlast (py_split crlf ([] @ ?bad @ crlf @ ?good @ crlf)))"
    by (rule feed_Some)
  moreover have "py_split crlf ([] @ ?bad @ crlf @ ?good @ crlf) = [?bad, ?good, []]"
    by (simp add: py_def crlf_def)
  ultimately have f: "feed [] ?data = ([], [?bad, ?good])" by simp
  have m: "map (\<lambda>i. (?e, [?bad, ?good] ! i)) [0..<length [?bad, ?good]] =
    [(?e, ?bad), (?e, ?good)]"
    by (simp add: upt_rec)
  have "dispatch_lines ?rl [(?e, ?bad), (?e, ?good)] = (?rl, [], Some ValueError)"
    using dispatch_bad_line by (rule dispatch_lines_raise)
  with m have "dispatch_lines ?rl (map (\<lambda>i. (?e, [?bad, ?good] ! i)) [0..<length [?bad, ?good]]) =
    (?rl, [], Some ValueError)"
    by (simp only:)
  with f show ?thesis by (simp only: run_step_raise append_Nil)
qed

text \<open>
  Claim C6 at a failing input. The first line has the marker \<^verbatim>\<open>PRIVMSG\<close> and no colon
  after the target: the unpacking raises \<^verbatim>\<open>ValueError\<close>, which leaves the loop, so the
  second line (a help request that is answered when it comes alone) is never processed,
  and the pass of \<^verbatim>\<open>run\<close> that receives the two lines ends the session with the 30
  second sleep. The line \<^verbatim>\<open>PING\<close> with no argument leaves the loop with \<^verbatim>\<open>IndexError\<close>.
\<close>

theorem malformed_line_abandons_session:
  "dispatch_lines (RateLimiter_init 5 500)
     [(\<lparr>now_check = 0, outcome = RequestRaised, now_record = 0\<rparr>,
       py '':alice!u@h PRIVMSG SearchBot hello''),
      (\<lparr>now_check = 0, outcome = RequestRaised, now_record = 0\<rparr>,
       py '':bob!u@h PRIVMSG SearchBot :!help'')] =
     (RateLimiter_init 5 500, [], Some ValueError) \<and>
   dispatch_lines (RateLimiter_init 5 500)
     [(\<lparr>now_check = 0, outcome = RequestRaised, now_record = 0\<rparr>,
       py '':bob!u@h PRIVMSG SearchBot :!help'')] =
     (RateLimiter_init 5 500, [Send (privmsg (py ''bob'') help_msg)], None) \<and>
   run_step (\<lambda>i. \<lparr>now_check = 0, outcome = RequestRaised, now_record = 0\<rparr>) []
     (RateLimiter_init 5 500)
     (map of_char '':alice!u@h PRIVMSG SearchBot hello'' @ [0x0D, 0x0A] @
      map of_char '':bob!u@h PRIVMSG SearchBot :!help'' @ [0x0D, 0x0A]) =
     ([], RateLimiter_init 5 500, [Sleep 30000], Abandoned ValueError) \<and>
   dispatch_line \<lparr>now_check = 0, outcome = RequestRaised, now_record = 0\<rparr>
     (RateLimiter_init 5 500) (py ''PING'') = (RateLimiter_init 5 500, [], Some IndexError)"
proof (intro conjI)
  show "dispatch_lines (RateLimiter_init 5 500)
     [(\<lparr>now_check = 0, outcome = RequestRaised, now_record = 0\<rparr>,
       py '':alice!u@h PRIVMSG SearchBot hello''),
      (\<lparr>now_check = 0, outcome = RequestRaised, now_record = 0\<rparr>,
       py '':bob!u@h PRIVMSG SearchBot :!help'')] =
     (RateLimiter_init 5 500, [], Some ValueError)"
    using dispatch_bad_line by (rule dispatch_lines_raise)
qed (simp_all only: malformed_line_run_step dispatch_ping_without_argument,
     simp add: dispatch_help_line)

lemma dispatch_empty_search_line:
  "dispatch_line e rl (py '':alice!u@h PRIVMSG SearchBot :!search '') = (rl, [], None)"
proof -
  let ?line = "py '':alice!u@h PRIVMSG SearchBot :!search ''"
  have "contains ?line (py ''PRIVMSG'')" by (simp add: py_def)
  moreover have "split_once (py ''PRIVMSG '') ?line = [py '':alice!u@h '', py ''SearchBot :!search '']"
    by (simp add: py_def)
  moreover have "split_once (py '':'') (py ''SearchBot :!search '') =
    [py ''SearchBot '', py ''!search '']"
    by (simp add: py_def)
  moreover have "strip (py ''SearchBot '') = nickname"
    by (simp add: nickname_def eval_text)
  ultimately have "dispatch_privmsg e rl ?line =
    (fst (handle_private_message e rl (drop 1 (hd (py_split (py ''!'') ?line))) (strip (py ''!search ''))),
     snd (handle_private_message e rl (drop 1 (hd (py_split (py ''!'') ?line))) (strip (py ''!search ''))),
     None)"
    by (rule dispatch_privmsg_private)
  moreover have "strip (py ''!search '') = py ''!search''" by (simp add: eval_text)
  moreover have "\<not> startswith (py ''!search'') (py ''!search '')" by (simp add: eval_text)
  moreover have "py ''!search'' \<noteq> py ''!help''" by (simp add: py_def)
  ultimately have "dispatch_privmsg e rl ?line = (rl, [], None)"
    by (simp add: handle_other)
  moreover have "ping_reply ?line = Inr []" by (simp add: ping_reply_def startswith_def py_def)
  ultimately show ?thesis by (simp add: dispatch_line_def)
qed

lemma rstrip_last: "rstrip s \<noteq> [] \<Longrightarrow> \<not> isspace (last (rstrip s))"
proof -
  assume "rstrip s \<noteq> []"
  then have ne: "dropWhile isspace (rev s) \<noteq> []" by (simp add: rstrip_def)
  then have "\<not> isspace (hd (dropWhile isspace (rev s)))" by (rule hd_dropWhile)
  with ne show ?thesis by (simp add: rstrip_def last_rev)
qed

lemma lstrip_last: "lstrip s \<noteq> [] \<Longrightarrow> last (lstrip s) = last s"
proof -
  assume ne: "lstrip s \<noteq> []"
  then have a: "last (takeWhile isspace s @ lstrip s) = last (lstrip s)"
    by (rule last_appendR)
  have b: "takeWhile isspace s @ lstrip s = s" by (simp add: lstrip_def)
  from a show ?thesis unfolding b by (rule sym)
qed

lemma strip_last: "strip s \<noteq> [] \<Longrightarrow> \<not> isspace (last (strip s))"
proof -
  assume ne: "strip s \<noteq> []"
  then have r: "rstrip s \<noteq> []" by (auto simp: strip_def lstrip_def)
  from ne have "last (strip s) = last (rstrip s)"
    unfolding strip_def by (rule lstrip_last)
  with rstrip_last [OF r] show ?thesis by simp
qed

lemma strip_nonempty: "x \<noteq> [] \<Longrightarrow> \<not> isspace (last x) \<Longrightarrow> strip x \<noteq> []"
proof -
  assume x: "x \<noteq> []" and l: "\<not> isspace (last x)"
  then have "dropWhile isspace (rev x) = rev x"
    by (cases "rev x") (auto simp: last_rev hd_rev)
  then have "rstrip x = x" by (simp add: rstrip_def)
  moreover have "\<not> (\<forall>c\<in>set x. isspace c)" using x l last_in_set by blast
  ultimately show ?thesis by (simp add: strip_def lstrip_def)
qed

text \<open>
  What \<^verbatim>\<open>run\<close> hands to the private handler is stripped (line 340), so a message that
  starts with \<^verbatim>\<open>!search\<close> and a space has a non-empty query there: the usage branch of the
  handler (lines 268-271) is not reached from \<^verbatim>\<open>run\<close>.
\<close>

lemma stripped_search_has_query:
  assumes "startswith (strip raw) (py ''!search '')"
  shows "strip (drop 8 (strip raw)) \<noteq> []"
proof -
  let ?m = "strip raw"
  have l8: "length (py ''!search '') = 8" by (simp add: py_def)
  have t: "take 8 ?m = py ''!search ''"
    using assms unfolding startswith_def by (simp only: l8)
  have "length (take 8 ?m) = 8" unfolding t by (rule l8)
  then have len: "8 \<le> length ?m" by (simp add: min_def split: if_splits)
  then have ne: "?m \<noteq> []" by auto
  have "take 8 ?m ! 7 = 32" unfolding t by (simp add: py_def)
  then have m7: "?m ! 7 = 32" by simp
  have nl: "\<not> isspace (last ?m)" using ne by (rule strip_last)
  have "length ?m \<noteq> 8"
  proof
    assume "length ?m = 8"
    then have "last ?m = ?m ! 7" using ne by (simp add: last_conv_nth)
    with m7 nl show False by (simp add: isspace_def)
  qed
  with len have d: "drop 8 ?m \<noteq> []" by simp
  then have "last (drop 8 ?m) = last ?m" by simp
  with nl have "\<not> isspace (last (drop 8 ?m))" by simp
  with d show ?thesis by (rule strip_nonempty)
qed

text \<open>
  Claim C5 at a failing input. The private message \<^verbatim>\<open>!search\<close> followed by a space
  arrives in the line below; \<^verbatim>\<open>run\<close> strips it to \<^verbatim>\<open>!search\<close>, which is neither the search
  command with its space nor the help command, and nothing is sent: no usage notice.
  The handler itself, given the unstripped text while a request is permitted, sends
  the usage notice.
\<close>

theorem empty_search_gets_no_reply:
  "dispatch_line \<lparr>now_check = 0, outcome = RequestRaised, now_record = 0\<rparr>
     (RateLimiter_init 5 500) (py '':alice!u@h PRIVMSG SearchBot :!search '') =
     (RateLimiter_init 5 500, [], None) \<and>
   handle_private_message \<lparr>now_check = 0, outcome = RequestRaised, now_record = 0\<rparr>
     (RateLimiter_init 5 500) (py ''alice'') (py ''!search '') =
     (RateLimiter_init 5 500, [Send (privmsg (py ''alice'') usage_notice)])"
proof -
  let ?e = "\<lparr>now_check = 0, outcome = RequestRaised, now_record = 0\<rparr>"
  have "startswith (py ''!search '') (py ''!search '')" by (simp add: eval_text)
  moreover have "strip (drop 8 (py ''!search '')) = []" by (simp add: eval_text)
  moreover have c: "can_make_request (now_check ?e) (RateLimiter_init 5 500) =
    (RateLimiter_init 5 500, True)"
    by (simp add: eval_rate)
  ultimately have "handle_private_message ?e (RateLimiter_init 5 500) (py ''alice'') (py ''!search '') =
    (fst (can_make_request (now_check ?e) (RateLimiter_init 5 500)),
     [Send (privmsg (py ''alice'') usage_notice)])"
    by (intro handle_search_empty) simp_all
  then show ?thesis unfolding c by (simp add: dispatch_empty_search_line)
qed

end
